theory Spec2Isabelle
  imports Complex_Main
begin

section \<open>The database write lock of j5.Basic.DatabaseWriteLock\<close>

text \<open>
  The module keeps one dictionary \<^verbatim>\<open>thread_busy\<close> from a lock key to a four element
  list \<^verbatim>\<open>[holder, acquired_at, count, warned]\<close> and one \<^verbatim>\<open>threading.Condition\<close>
  (\<^verbatim>\<open>database_write_lock\<close>). The lists are shared objects: a waiter keeps a reference
  to the list it saw, \<^verbatim>\<open>release_db_lock\<close> mutates the list in place and restores a
  copy of it. The lists therefore live in a store, and the dictionary and the local
  variables hold references into it.
\<close>

subsection \<open>Data\<close>

type_synonym thread_id = nat
type_synonym ref = nat

text \<open>The only key the module uses is Python's \<^verbatim>\<open>None\<close>: the whole database.\<close>

datatype lock_key = WholeDatabase

text \<open>The list \<^verbatim>\<open>[current_id, time.time(), 1, False]\<close>, by index 0 to 3.\<close>

record busy_op =
  op_holder :: thread_id
  op_acquired_at :: real
  op_count :: int
  op_warned :: bool

datatype py_error = TypeError | CollaboratorError

text \<open>
  Where a \<^verbatim>\<open>RuntimeError\<close> raised into the thread by \<^verbatim>\<open>thread_async_raise\<close> arrives
  during one invocation of \<^verbatim>\<open>release_db_lock\<close>:
  \<^item> \<open>BeforeSnapshot\<close>: inside the outer \<^verbatim>\<open>try\<close> and the \<^verbatim>\<open>with\<close>, before line 138;
  \<^item> \<open>BeforeDecrement\<close>: inside the inner \<^verbatim>\<open>try\<close>, before line 142;
  \<^item> \<open>AfterDecrement\<close>: after line 142, before line 144;
  \<^item> \<open>AfterPop\<close>: after line 144, before line 145;
  \<^item> \<open>AfterNotify\<close>: after line 145, still inside the inner \<^verbatim>\<open>try\<close>;
  \<^item> \<open>AfterInnerTry\<close>: the inner \<^verbatim>\<open>try\<close> is left, the \<^verbatim>\<open>with\<close> block is being left
    (still inside the outer \<^verbatim>\<open>try\<close>).
\<close>

datatype interrupt =
  Uninterrupted | BeforeSnapshot | BeforeDecrement | AfterDecrement | AfterPop
  | AfterNotify | AfterInnerTry

datatype collaborator =
  ServerModeQuery | FindThreadFrame thread_id | FormatTraceback
  | ThreadAsyncRaise thread_id | Creole2xhtml | SelectEmailAdmin | EmailAdmin

text \<open>One constructor for each logging statement of the module, named by its line.\<close>

datatype log_line =
  SlaveRequest_48 | SlaveTraceback_51 | Waiting_65 thread_id real
  | TimedOutKilling_77 thread_id | TracebackToKill_79
  | ErrorCreatingTracebacks_104 thread_id | StillWaiting_112 real | WarnTraceback_113
  | WarnException_116 | NoAdminEmailer_130 | KillDuringRelease_150

datatype event =
  MutexEnter thread_id
  | MutexExit thread_id
  | CondWait thread_id real
  | CondNotify thread_id "thread_id list"
  | Call thread_id collaborator
  | Log thread_id log_line
  | Reentered thread_id
  | Claimed thread_id
  | Delivered thread_id interrupt
  | GetReturned thread_id
  | GetRaised thread_id py_error
  | ReleaseReturned thread_id
  | ReleaseRaised thread_id py_error

text \<open>The local variables of a thread blocked in \<^verbatim>\<open>database_write_lock.wait\<close>.\<close>

record waiter =
  w_busy_op :: ref
  w_start_time :: real
  w_check_start_time :: real
  w_max_wait :: real
  w_warning_timeout :: real

text \<open>
  The process: the store of list objects (a reference is an index, objects are never
  freed), the dictionary, the wait queue of the condition, the frames of the threads that
  are blocked in \<^verbatim>\<open>get_db_lock\<close>, and the events so far, oldest first.
\<close>

record sys =
  heap :: "busy_op list"
  thread_busy :: "lock_key \<rightharpoonup> ref"
  cond_waiters :: "thread_id list"
  waiting :: "thread_id \<rightharpoonup> waiter"
  trace :: "event list"

definition init :: sys where
  "init = \<lparr>heap = [], thread_busy = Map.empty, cond_waiters = [], waiting = Map.empty,
           trace = []\<rparr>"

definition emit :: "event \<Rightarrow> sys \<Rightarrow> sys" where
  "emit e s = s\<lparr>trace := trace s @ [e]\<rparr>"

text \<open>Allocation of a new list object; its reference is the old length of the store.\<close>

definition alloc :: "busy_op \<Rightarrow> sys \<Rightarrow> sys" where
  "alloc b s = s\<lparr>heap := heap s @ [b]\<rparr>"

text \<open>
  \<^verbatim>\<open>Condition.notify()\<close> of the Python library, with its default \<^verbatim>\<open>n=1\<close>: it wakes at
  most \<open>n\<close> of the threads waiting on the condition, the longest waiting first, and is a
  no-op when none waits.
\<close>

definition cond_notify :: "nat \<Rightarrow> thread_id \<Rightarrow> sys \<Rightarrow> sys" where
  "cond_notify n cur s =
     emit (CondNotify cur (take n (cond_waiters s)))
       (s\<lparr>cond_waiters := drop n (cond_waiters s)\<rparr>)"

subsection \<open>release_db_lock\<close>

text \<open>
  One pass through the body of \<^verbatim>\<open>release_db_lock\<close> (lines 135 to 145), up to the point
  where it either finishes, raises, or lands in one of its two \<^verbatim>\<open>except RuntimeError\<close>
  handlers. \<open>InnerHandler\<close> is the state after line 147 (the handler of line 146 has
  stored the backup), \<open>OuterHandler\<close> the state on entry to the handler of line 149.
\<close>

datatype attempt =
  Completed sys | Raised py_error sys | InnerHandler sys | OuterHandler sys

definition release_attempt :: "thread_id \<Rightarrow> interrupt \<Rightarrow> sys \<Rightarrow> attempt" where
  "release_attempt current_id i s0 =
    (let s = emit (MutexEnter current_id) s0 in
     if i = BeforeSnapshot
     then OuterHandler (emit (MutexExit current_id) (emit (Delivered current_id i) s))
     else
      (case thread_busy s WholeDatabase of
         None \<Rightarrow> Raised TypeError (emit (MutexExit current_id) s)
       | Some busy_op \<Rightarrow>
          (let busy_op_backup = length (heap s);
               s = alloc (heap s ! busy_op) s;
               restore = (\<lambda>s. (emit (Delivered current_id i) s)
                                 \<lparr>thread_busy := (thread_busy s)(WholeDatabase \<mapsto> busy_op_backup)\<rparr>);
               leave = (\<lambda>s. if i = AfterInnerTry
                               then OuterHandler
                                      (emit (MutexExit current_id) (emit (Delivered current_id i) s))
                               else Completed (emit (MutexExit current_id) s))
           in
            if op_holder (heap s ! busy_op) = current_id then
              if i = BeforeDecrement then InnerHandler (restore s)
              else
               (let s = s\<lparr>heap := (heap s)[busy_op :=
                              (heap s ! busy_op)\<lparr>op_count := op_count (heap s ! busy_op) - 1\<rparr>]\<rparr>
                in
                 if i = AfterDecrement then InnerHandler (restore s)
                 else if op_count (heap s ! busy_op) \<le> 0 then
                   (let s = s\<lparr>thread_busy := (thread_busy s)(WholeDatabase := None)\<rparr> in
                     if i = AfterPop then InnerHandler (restore s)
                     else
                      (let s = cond_notify 1 current_id s in
                        if i = AfterNotify then InnerHandler (restore s) else leave s))
                 else leave s)
            else
              if i = BeforeDecrement then InnerHandler (restore s) else leave s)))"

text \<open>
  The whole function. The list gives, for each invocation in turn (the call and the
  recursive calls of lines 148 and 151), where a \<^verbatim>\<open>RuntimeError\<close> arrives; an invocation
  beyond the end of the list runs undisturbed, and so does one whose control flow does not
  pass the given point. The result carries the final state also when the call raises.

  The recursive call of line 148 runs inside the \<^verbatim>\<open>with\<close> block of its caller (the
  condition's lock is reentrant), so the caller leaves the mutex after it; the call of
  line 151 runs after the \<^verbatim>\<open>with\<close> block has been left.
\<close>

fun release_db_lock :: "thread_id \<Rightarrow> interrupt list \<Rightarrow> sys \<Rightarrow> py_error \<times> sys + sys" where
  "release_db_lock current_id [] s =
     (case release_attempt current_id Uninterrupted s of
        Completed s' \<Rightarrow> Inr s'
      | Raised e s' \<Rightarrow> Inl (e, s')
      | InnerHandler s' \<Rightarrow> Inr s'
      | OuterHandler s' \<Rightarrow> Inr s')"
| "release_db_lock current_id (i # is) s =
     (case release_attempt current_id i s of
        Completed s' \<Rightarrow> Inr s'
      | Raised e s' \<Rightarrow> Inl (e, s')
      | InnerHandler s' \<Rightarrow>
          (case release_db_lock current_id is s' of
             Inr s'' \<Rightarrow> Inr (emit (MutexExit current_id) s'')
           | Inl (e, s'') \<Rightarrow> Inl (e, emit (MutexExit current_id) s''))
      | OuterHandler s' \<Rightarrow>
          release_db_lock current_id is (emit (Log current_id KillDuringRelease_150) s'))"

subsection \<open>get_db_lock\<close>

text \<open>
  What the surroundings answer during one stretch of \<^verbatim>\<open>get_db_lock\<close> between two
  calls of \<^verbatim>\<open>wait\<close>: the readings of \<^verbatim>\<open>time.time()\<close> by line, and whether each
  collaborator returns or raises. \<^verbatim>\<open>Admin.ServerModeEnum\<close> is not part of the sources;
  only whether the mode equals \<^verbatim>\<open>SLAVE\<close> matters to the code. A clock reading is a
  number of seconds; the code only subtracts and compares readings, and nothing here
  assumes that they increase. An exception of a collaborator is any \<^verbatim>\<open>Exception\<close>,
  which is what the handlers of lines 83, 103 and 115 catch.
\<close>

datatype server_mode = SLAVE | OtherMode

datatype notifier = SelectRaises | NoEmailer | EmailerSends | EmailerRaises

record env =
  mode_query :: "server_mode option"
  frame_ok :: bool
  format_ok :: bool
  raise_ok :: bool
  render :: "string option"
  admin :: notifier
  t_start :: real
  t_wait :: real
  t_deadline :: real
  t_warn :: real
  t_check :: real
  t_claim :: real

text \<open>Lines 46 to 51. Nothing catches a failure of the three collaborators here.\<close>

definition role_guard :: "thread_id \<Rightarrow> env \<Rightarrow> sys \<Rightarrow> py_error \<times> sys + sys" where
  "role_guard current_id e s =
    (let s = emit (Call current_id ServerModeQuery) s in
     case mode_query e of
       None \<Rightarrow> Inl (CollaboratorError, s)
     | Some OtherMode \<Rightarrow> Inr s
     | Some SLAVE \<Rightarrow>
        (let s = emit (Call current_id (FindThreadFrame current_id))
                   (emit (Log current_id SlaveRequest_48) s) in
         if \<not> frame_ok e then Inl (CollaboratorError, s)
         else
          (let s = emit (Call current_id FormatTraceback) s in
           if \<not> format_ok e then Inl (CollaboratorError, s)
           else Inr (emit (Log current_id SlaveTraceback_51) s))))"

text \<open>Line 123, then the end of the \<^verbatim>\<open>with\<close> block.\<close>

definition claim :: "thread_id \<Rightarrow> env \<Rightarrow> sys \<Rightarrow> sys" where
  "claim current_id e s =
    emit (MutexExit current_id)
      (emit (Claimed current_id)
        ((alloc \<lparr>op_holder = current_id, op_acquired_at = t_claim e, op_count = 1,
                 op_warned = False\<rparr> s)
           \<lparr>thread_busy := (thread_busy s)(WholeDatabase \<mapsto> length (heap s))\<rparr>))"

text \<open>
  Lines 65 to 67, up to the point where \<^verbatim>\<open>wait\<close> has put the thread on the condition's
  queue and given the mutex up. The frame keeps the local variables.
\<close>

definition wait_again :: "thread_id \<Rightarrow> waiter \<Rightarrow> env \<Rightarrow> sys \<Rightarrow> sys" where
  "wait_again current_id w e s =
    emit (MutexExit current_id)
      (emit (CondWait current_id (w_warning_timeout w - (t_wait e - w_check_start_time w)))
        (emit (Log current_id (Waiting_65 (op_holder (heap s ! w_busy_op w)) (w_max_wait w)))
          (s\<lparr>cond_waiters := cond_waiters s @ [current_id],
             waiting := (waiting s)(current_id \<mapsto> w)\<rparr>)))"

text \<open>
  Lines 125 to 130, after the mutex. \<^verbatim>\<open>email_msg\<close> is a non-empty string whenever it is
  set; \<^verbatim>\<open>dump_file_contents\<close> is whatever the renderer returned, and an empty string
  there is false to Python.
\<close>

definition notify_admin :: "thread_id \<Rightarrow> bool \<Rightarrow> string option \<Rightarrow> env \<Rightarrow> sys \<Rightarrow> sys" where
  "notify_admin current_id email_msg dump_file_contents e s =
    (if email_msg \<and> dump_file_contents \<noteq> None \<and> dump_file_contents \<noteq> Some []
     then
      (let s = emit (Call current_id SelectEmailAdmin) s in
       case admin e of
         SelectRaises \<Rightarrow> emit (GetRaised current_id CollaboratorError) s
       | NoEmailer \<Rightarrow> emit (GetReturned current_id) (emit (Log current_id NoAdminEmailer_130) s)
       | EmailerSends \<Rightarrow> emit (GetReturned current_id) (emit (Call current_id EmailAdmin) s)
       | EmailerRaises \<Rightarrow>
           emit (GetRaised current_id CollaboratorError) (emit (Call current_id EmailAdmin) s))
     else emit (GetReturned current_id) s)"

text \<open>
  Lines 72 to 104: the attempt to kill the blocking thread. It returns \<^verbatim>\<open>email_msg\<close>
  (set or not) and \<^verbatim>\<open>dump_file_contents\<close>. When \<^verbatim>\<open>thread_async_raise\<close> raises, the
  handler of line 83 formats the exception with \<^verbatim>\<open>%e\<close> on line 84, which raises a
  \<^verbatim>\<open>TypeError\<close> of its own, so control goes on to the handler of line 103 and lines 85
  to 102 do not run.
\<close>

definition takeover :: "thread_id \<Rightarrow> thread_id \<Rightarrow> env \<Rightarrow> sys \<Rightarrow> (bool \<times> string option) \<times> sys" where
  "takeover current_id blocker e s =
    (let failed = (\<lambda>s. ((False, None), emit (Log current_id (ErrorCreatingTracebacks_104 blocker)) s));
         s = emit (Call current_id (FindThreadFrame blocker)) s in
     if \<not> frame_ok e then failed s
     else
      (let s = emit (Call current_id FormatTraceback) s in
       if \<not> format_ok e then failed s
       else
        (let s = emit (Call current_id (ThreadAsyncRaise blocker))
                   (emit (Log current_id TracebackToKill_79)
                     (emit (Log current_id (TimedOutKilling_77 blocker)) s)) in
         if \<not> raise_ok e then failed s
         else
          (let s = emit (Call current_id Creole2xhtml) s in
           case render e of
             None \<Rightarrow> failed s
           | Some doc \<Rightarrow> ((True, Some doc), s)))))"

text \<open>
  Lines 107 to 116: the warning. The flag is read and written through the waiter's own
  reference \<^verbatim>\<open>busy_op\<close>.
\<close>

definition warn :: "thread_id \<Rightarrow> waiter \<Rightarrow> env \<Rightarrow> sys \<Rightarrow> sys" where
  "warn current_id w e s =
    (if op_warned (heap s ! w_busy_op w) then s
     else
      (let failed = (\<lambda>s. emit (Log current_id WarnException_116) s);
           s = emit (Call current_id (FindThreadFrame (op_holder (heap s ! w_busy_op w)))) s in
       if \<not> frame_ok e then failed s
       else
        (let s = emit (Call current_id FormatTraceback) s in
         if \<not> format_ok e then failed s
         else
          (let s = emit (Log current_id WarnTraceback_113)
                     (emit (Log current_id (StillWaiting_112 (w_warning_timeout w))) s)
           in s\<lparr>heap := (heap s)[w_busy_op w := (heap s ! w_busy_op w)\<lparr>op_warned := True\<rparr>]\<rparr>))))"

text \<open>
  The call of \<^verbatim>\<open>get_db_lock\<close> by a thread, from line 46 to its return or to its first
  \<^verbatim>\<open>wait\<close>. A thread that is blocked in \<^verbatim>\<open>wait\<close> makes no call.
\<close>

definition get_db_lock_enter :: "thread_id \<Rightarrow> real \<Rightarrow> real \<Rightarrow> env \<Rightarrow> sys \<Rightarrow> sys" where
  "get_db_lock_enter current_id max_wait_for_exclusive_lock warning_timeout e s0 =
    (case role_guard current_id e s0 of
       Inl (err, s) \<Rightarrow> emit (GetRaised current_id err) s
     | Inr s1 \<Rightarrow>
        (let s = emit (MutexEnter current_id) s1 in
         case thread_busy s WholeDatabase of
           None \<Rightarrow> notify_admin current_id False None e (claim current_id e s)
         | Some busy_op \<Rightarrow>
            if op_holder (heap s ! busy_op) = current_id
            then emit (GetReturned current_id)
                   (emit (MutexExit current_id)
                     (emit (Reentered current_id)
                       (s\<lparr>heap := (heap s)[busy_op :=
                            (heap s ! busy_op)\<lparr>op_count := op_count (heap s ! busy_op) + 1\<rparr>]\<rparr>)))
            else wait_again current_id
                   \<lparr>w_busy_op = busy_op, w_start_time = t_start e, w_check_start_time = t_start e,
                    w_max_wait = max_wait_for_exclusive_lock,
                    w_warning_timeout = warning_timeout\<rparr> e s))"

text \<open>
  \<^verbatim>\<open>wait\<close> returns, notified or timed out: the thread is off the condition's queue and
  holds the mutex again.
\<close>

definition wait_returns :: "thread_id \<Rightarrow> sys \<Rightarrow> sys" where
  "wait_returns current_id s =
     emit (MutexEnter current_id)
       (s\<lparr>cond_waiters := removeAll current_id (cond_waiters s),
          waiting := (waiting s)(current_id := None)\<rparr>)"

text \<open>
  The return of \<^verbatim>\<open>wait\<close> in a blocked thread, from line 68 to the next \<^verbatim>\<open>wait\<close> or
  to the return of \<^verbatim>\<open>get_db_lock\<close>.
\<close>

definition get_db_lock_wake :: "thread_id \<Rightarrow> waiter \<Rightarrow> env \<Rightarrow> sys \<Rightarrow> sys" where
  "get_db_lock_wake current_id w e s0 =
    (let s = wait_returns current_id s0;
         busy_op = heap s ! w_busy_op w
     in
      case thread_busy s WholeDatabase of
        None \<Rightarrow> notify_admin current_id False None e (claim current_id e s)
      | Some now_busy_op \<Rightarrow>
         if op_holder busy_op = op_holder (heap s ! now_busy_op)
            \<and> op_acquired_at busy_op = op_acquired_at (heap s ! now_busy_op)
         then
           if t_deadline e - w_start_time w > w_max_wait w
           then
            (case takeover current_id (op_holder busy_op) e s of
               ((email_msg, dump_file_contents), s) \<Rightarrow>
                 notify_admin current_id email_msg dump_file_contents e (claim current_id e s))
           else if t_warn e - w_check_start_time w > w_warning_timeout w
           then wait_again current_id (w\<lparr>w_check_start_time := t_check e\<rparr>) e (warn current_id w e s)
           else wait_again current_id w e s
         else wait_again current_id (w\<lparr>w_busy_op := now_busy_op, w_check_start_time := t_check e\<rparr>) e s)"

subsection \<open>The threads of the process\<close>

text \<open>
  The mutex makes each stretch of code between two points where it is given up atomic, so
  a run of the process is a sequence of such stretches: a thread calls \<^verbatim>\<open>get_db_lock\<close>,
  a blocked thread comes back from \<^verbatim>\<open>wait\<close>, a thread calls \<^verbatim>\<open>release_db_lock\<close>.
  A thread blocked in \<^verbatim>\<open>wait\<close> calls nothing, and only a blocked thread wakes.
\<close>

datatype step =
  Get thread_id real real env
  | Wake thread_id env
  | Release thread_id "interrupt list"

fun exec :: "sys \<Rightarrow> step \<Rightarrow> sys" where
  "exec s (Get t max_wait warning_timeout e) =
     (if waiting s t = None then get_db_lock_enter t max_wait warning_timeout e s else s)"
| "exec s (Wake t e) =
     (case waiting s t of None \<Rightarrow> s | Some w \<Rightarrow> get_db_lock_wake t w e s)"
| "exec s (Release t is) =
     (if waiting s t = None
      then (case release_db_lock t is s of
              Inr s' \<Rightarrow> emit (ReleaseReturned t) s'
            | Inl (err, s') \<Rightarrow> emit (ReleaseRaised t err) s')
      else s)"

definition run :: "step list \<Rightarrow> sys" where
  "run steps = foldl exec init steps"

subsection \<open>Reading the state\<close>

text \<open>The entry of a key as the code reads it: the list behind the reference.\<close>

definition entry :: "sys \<Rightarrow> lock_key \<Rightarrow> busy_op option" where
  "entry s k = map_option (\<lambda>r. heap s ! r) (thread_busy s k)"

text \<open>The threads recorded as holder of a key.\<close>

definition holders :: "sys \<Rightarrow> lock_key \<Rightarrow> thread_id set" where
  "holders s k = {t. \<exists>b. entry s k = Some b \<and> op_holder b = t}"

text \<open>The conditions of line 70 and line 71, as a waiter with frame \<open>w\<close> evaluates them.\<close>

definition same_op :: "waiter \<Rightarrow> sys \<Rightarrow> bool" where
  "same_op w s =
     (case thread_busy s WholeDatabase of
        None \<Rightarrow> False
      | Some now_busy_op \<Rightarrow>
          op_holder (heap s ! w_busy_op w) = op_holder (heap s ! now_busy_op)
        \<and> op_acquired_at (heap s ! w_busy_op w) = op_acquired_at (heap s ! now_busy_op))"

definition deadline_passed :: "waiter \<Rightarrow> env \<Rightarrow> bool" where
  "deadline_passed w e = (t_deadline e - w_start_time w > w_max_wait w)"

text \<open>
  The entry of the key in \<open>s'\<close> is a list that did not exist in \<open>s\<close>, as line 123
  writes it for thread \<open>t\<close>.
\<close>

definition fresh_entry :: "thread_id \<Rightarrow> env \<Rightarrow> sys \<Rightarrow> sys \<Rightarrow> bool" where
  "fresh_entry t e s s' =
     (thread_busy s' WholeDatabase = Some (length (heap s))
    \<and> entry s' WholeDatabase
        = Some \<lparr>op_holder = t, op_acquired_at = t_claim e, op_count = 1, op_warned = False\<rparr>)"

text \<open>The role check of lines 46 to 51 passes without an exception.\<close>

definition role_quiet :: "env \<Rightarrow> bool" where
  "role_quiet e =
     (mode_query e = Some OtherMode \<or> (mode_query e = Some SLAVE \<and> frame_ok e \<and> format_ok e))"

text \<open>An environment for examples: every collaborator returns, every clock reads \<open>t\<close>.\<close>

definition quiet_env :: "real \<Rightarrow> env" where
  "quiet_env t = \<lparr>mode_query = Some OtherMode, frame_ok = True, format_ok = True, raise_ok = True,
     render = Some ''report'', admin = EmailerSends, t_start = t, t_wait = t, t_deadline = t,
     t_warn = t, t_check = t, t_claim = t\<rparr>"

text \<open>The state that one pass through the body leaves, however it ends.\<close>

fun outcome :: "attempt \<Rightarrow> sys" where
  "outcome (Completed s) = s"
| "outcome (Raised err s) = s"
| "outcome (InnerHandler s) = s"
| "outcome (OuterHandler s) = s"

text \<open>The state in which a call of \<^verbatim>\<open>release_db_lock\<close> leaves the process, returning or raising.\<close>

fun final :: "py_error \<times> sys + sys \<Rightarrow> sys" where
  "final (Inl (err, s)) = s"
| "final (Inr s) = s"

subsection \<open>Reading the events\<close>

text \<open>
  The collaborator calls that are made while the mutex is held, in order. The first
  argument is the depth to which the (reentrant) lock of the condition is held.
\<close>

fun held_calls :: "nat \<Rightarrow> event list \<Rightarrow> (thread_id \<times> collaborator) list" where
  "held_calls d [] = []"
| "held_calls d (MutexEnter t # evs) = held_calls (Suc d) evs"
| "held_calls d (MutexExit t # evs) = held_calls (d - 1) evs"
| "held_calls d (Call t c # evs) = (if 0 < d then [(t, c)] else []) @ held_calls d evs"
| "held_calls d (ev # evs) = held_calls d evs"

fun mutex_depth :: "nat \<Rightarrow> event list \<Rightarrow> nat" where
  "mutex_depth d [] = d"
| "mutex_depth d (MutexEnter t # evs) = mutex_depth (Suc d) evs"
| "mutex_depth d (MutexExit t # evs) = mutex_depth (d - 1) evs"
| "mutex_depth d (ev # evs) = mutex_depth d evs"

text \<open>No call to the admin notifier (lines 126 and 128) is made while the mutex is held.\<close>

fun is_admin_call :: "thread_id \<times> collaborator \<Rightarrow> bool" where
  "is_admin_call (t, SelectEmailAdmin) = True"
| "is_admin_call (t, EmailAdmin) = True"
| "is_admin_call (t, c) = False"

definition admin_outside_mutex :: "event list \<Rightarrow> bool" where
  "admin_outside_mutex evs = (filter is_admin_call (held_calls 0 evs) = [])"

text \<open>The number of timeout warnings (line 112) that thread \<open>t\<close> has logged.\<close>

fun is_warning :: "thread_id \<Rightarrow> event \<Rightarrow> bool" where
  "is_warning t (Log t' (StillWaiting_112 x)) = (t' = t)"
| "is_warning t ev = False"

definition warnings :: "thread_id \<Rightarrow> event list \<Rightarrow> nat" where
  "warnings t evs = length (filter (is_warning t) evs)"




subsection \<open>Reading the runs\<close>



text \<open>
  The entry of a present key lies in the store, has a count of at least 1 and records one
  holder; an absent key records none.
\<close>

definition table_inv :: "sys \<Rightarrow> lock_key \<Rightarrow> bool" where
  "table_inv s k =
     (case thread_busy s k of
        None \<Rightarrow> holders s k = {}
      | Some r \<Rightarrow> r < length (heap s) \<and> 1 \<le> op_count (heap s ! r)
                 \<and> holders s k = {op_holder (heap s ! r)})"

text \<open>The frame of every blocked thread refers to a list in the store.\<close>

definition frames_inv :: "sys \<Rightarrow> bool" where
  "frames_inv s = (\<forall>t w. waiting s t = Some w \<longrightarrow> w_busy_op w < length (heap s))"


text \<open>
  Thread \<open>t\<close> stays in one waiting episode through the steps: each time it wakes, line
  70 finds the pair it observed and line 71 finds the deadline not passed, so it neither
  starts a new episode nor leaves the loop.
\<close>

fun same_episode :: "thread_id \<Rightarrow> sys \<Rightarrow> step list \<Rightarrow> bool" where
  "same_episode t s [] = True"
| "same_episode t s (Wake t' e # steps) =
     ((t' = t \<longrightarrow> (case waiting s t of
                      None \<Rightarrow> False
                    | Some w \<Rightarrow> same_op w s \<and> \<not> deadline_passed w e))
      \<and> same_episode t (exec s (Wake t' e)) steps)"
| "same_episode t s (x # steps) = same_episode t (exec s x) steps"

text \<open>
  From \<open>s\<close> to \<open>s'\<close> no list has left the store and no warned flag has gone back to
  \<^verbatim>\<open>False\<close>.
\<close>

definition flags_kept :: "sys \<Rightarrow> sys \<Rightarrow> bool" where
  "flags_kept s s' =
     (length (heap s) \<le> length (heap s')
    \<and> (\<forall>r<length (heap s). op_warned (heap s ! r) \<longrightarrow> op_warned (heap s' ! r)))"

text \<open>The thread that makes a step.\<close>

fun actor :: "step \<Rightarrow> thread_id" where
  "actor (Get t mw wt e) = t"
| "actor (Wake t e) = t"
| "actor (Release t is) = t"

text \<open>
  The lock state without the warned flags: the dictionary, holder, time and count of each
  list, the blocked threads with their frames, and the condition's queue.
\<close>

definition lock_view ::
  "sys \<Rightarrow> (lock_key \<rightharpoonup> ref) \<times> (thread_id \<times> real \<times> int) list \<times> (thread_id \<rightharpoonup> waiter)
           \<times> thread_id list" where
  "lock_view s =
     (thread_busy s, map (\<lambda>b. (op_holder b, op_acquired_at b, op_count b)) (heap s),
      waiting s, cond_waiters s)"

text \<open>The events that lead from \<open>s\<close> to \<open>s'\<close>.\<close>

definition new_events :: "sys \<Rightarrow> sys \<Rightarrow> event list" where
  "new_events s s' = drop (length (trace s)) (trace s')"

text \<open>
  One of the collaborators of the takeover (lines 75, 76, 81 and 96) raises; one of the
  collaborators of the warning (lines 110 and 111) raises.
\<close>

definition takeover_fails :: "env \<Rightarrow> bool" where
  "takeover_fails e = (\<not> frame_ok e \<or> \<not> format_ok e \<or> \<not> raise_ok e \<or> render e = None)"

definition warning_fails :: "env \<Rightarrow> bool" where
  "warning_fails e = (\<not> frame_ok e \<or> \<not> format_ok e)"

text \<open>Line 106 finds the warning due.\<close>

definition warning_due :: "waiter \<Rightarrow> env \<Rightarrow> bool" where
  "warning_due w e = (t_warn e - w_check_start_time w > w_warning_timeout w)"

text \<open>
  Call outcomes: the events with which a call of \<^verbatim>\<open>get_db_lock\<close> or
  \<^verbatim>\<open>release_db_lock\<close> returns or raises, and per thread the calls of
  \<^verbatim>\<open>get_db_lock\<close> that have returned minus the calls of \<^verbatim>\<open>release_db_lock\<close> that
  have returned.
\<close>

fun is_outcome :: "event \<Rightarrow> bool" where
  "is_outcome (GetReturned t) = True"
| "is_outcome (GetRaised t err) = True"
| "is_outcome (ReleaseReturned t) = True"
| "is_outcome (ReleaseRaised t err) = True"
| "is_outcome ev = False"

definition net_calls :: "thread_id \<Rightarrow> event list \<Rightarrow> int" where
  "net_calls t evs = int (length (filter (\<lambda>ev. ev = GetReturned t) evs))
                   - int (length (filter (\<lambda>ev. ev = ReleaseReturned t) evs))"

text \<open>The outcomes of the collaborators that the waiting loop calls (lines 72 to 116).\<close>

definition loop_outcomes :: "bool \<Rightarrow> bool \<Rightarrow> bool \<Rightarrow> string option \<Rightarrow> env \<Rightarrow> env" where
  "loop_outcomes frame format raise doc e =
     e\<lparr>frame_ok := frame, format_ok := format, raise_ok := raise, render := doc\<rparr>"

section \<open>Properties\<close>

subsection \<open>Single calls\<close>

lemmas model_defs = emit_def alloc_def cond_notify_def release_attempt_def role_guard_def claim_def
  wait_again_def notify_admin_def takeover_def warn_def get_db_lock_enter_def get_db_lock_wake_def
  wait_returns_def
  entry_def role_quiet_def Let_def

text \<open>Without a \<^verbatim>\<open>RuntimeError\<close> a pass through the body ends in no handler.\<close>

lemma uninterrupted_attempt [simp]:
  "release_attempt t Uninterrupted s \<noteq> InnerHandler s'"
  "release_attempt t Uninterrupted s \<noteq> OuterHandler s'"
  by (simp_all add: release_attempt_def Let_def split: option.splits)

lemma get_free:
  assumes "thread_busy s WholeDatabase = None" "role_quiet e"
  shows "entry (get_db_lock_enter t mw wt e s) WholeDatabase
           = Some \<lparr>op_holder = t, op_acquired_at = t_claim e, op_count = 1, op_warned = False\<rparr>"
    "thread_busy (get_db_lock_enter t mw wt e s) WholeDatabase = Some (length (heap s))"
    "length (heap (get_db_lock_enter t mw wt e s)) = Suc (length (heap s))"
    "waiting (get_db_lock_enter t mw wt e s) = waiting s"
    "last (trace (get_db_lock_enter t mw wt e s)) = GetReturned t"
    "cond_waiters (get_db_lock_enter t mw wt e s) = cond_waiters s"
  using assms by (auto simp: model_defs split: option.splits server_mode.splits)

lemma get_reentrant:
  assumes "thread_busy s WholeDatabase = Some r" "r < length (heap s)"
    "op_holder (heap s ! r) = t" "role_quiet e"
  shows "entry (get_db_lock_enter t mw wt e s) WholeDatabase
           = Some ((heap s ! r)\<lparr>op_count := op_count (heap s ! r) + 1\<rparr>)"
    "thread_busy (get_db_lock_enter t mw wt e s) = thread_busy s"
    "length (heap (get_db_lock_enter t mw wt e s)) = length (heap s)"
    "waiting (get_db_lock_enter t mw wt e s) = waiting s"
    "last (trace (get_db_lock_enter t mw wt e s)) = GetReturned t"
    "cond_waiters (get_db_lock_enter t mw wt e s) = cond_waiters s"
  using assms by (auto simp: model_defs split: option.splits server_mode.splits)

lemma release_holder_keeps:
  assumes "thread_busy s WholeDatabase = Some r" "r < length (heap s)"
    "op_holder (heap s ! r) = t" "1 < op_count (heap s ! r)"
  shows "\<exists>s'. release_db_lock t [] s = Inr s'
      \<and> entry s' WholeDatabase = Some ((heap s ! r)\<lparr>op_count := op_count (heap s ! r) - 1\<rparr>)
      \<and> thread_busy s' = thread_busy s \<and> length (heap s') = Suc (length (heap s))
      \<and> waiting s' = waiting s \<and> cond_waiters s' = cond_waiters s"
  using assms by (auto simp: model_defs nth_append)

lemma release_holder_frees:
  assumes "thread_busy s WholeDatabase = Some r" "r < length (heap s)"
    "op_holder (heap s ! r) = t" "op_count (heap s ! r) \<le> 1"
  shows "\<exists>s'. release_db_lock t [] s = Inr s'
      \<and> thread_busy s' WholeDatabase = None
      \<and> waiting s' = waiting s \<and> cond_waiters s' = drop 1 (cond_waiters s)
      \<and> trace s' = trace s @ [MutexEnter t, CondNotify t (take 1 (cond_waiters s)), MutexExit t]"
  using assms by (auto simp: model_defs nth_append)

lemma release_not_holder:
  assumes "thread_busy s WholeDatabase = Some r" "r < length (heap s)"
    "op_holder (heap s ! r) \<noteq> t"
  shows "\<exists>s'. release_db_lock t [] s = Inr s'
      \<and> thread_busy s' = thread_busy s \<and> entry s' WholeDatabase = entry s WholeDatabase
      \<and> waiting s' = waiting s \<and> cond_waiters s' = cond_waiters s"
  using assms by (auto simp: model_defs nth_append)

subsection \<open>Reentrant acquisition by one thread\<close>

text \<open>
  C4. From a state in which the key is free, the first \<^verbatim>\<open>get_db_lock\<close> of a thread
  installs it as holder with count 1; its second one raises the count to 2 and returns
  without blocking (no thread is added to the blocked ones or to the condition's queue);
  its first \<^verbatim>\<open>release_db_lock\<close> lowers the count to 1 and leaves it holder; its second
  one removes the entry and calls \<^verbatim>\<open>notify\<close>.
\<close>

theorem single_thread_scenario:
  assumes free: "thread_busy s0 WholeDatabase = None"
    and quiet: "role_quiet e1" "role_quiet e2"
  shows "let s1 = get_db_lock_enter T1 mw1 wt1 e1 s0;
             s2 = get_db_lock_enter T1 mw2 wt2 e2 s1;
             held = (\<lambda>n. Some \<lparr>op_holder = T1, op_acquired_at = t_claim e1, op_count = n,
                                op_warned = False\<rparr>)
         in entry s1 WholeDatabase = held 1 \<and> last (trace s1) = GetReturned T1
          \<and> entry s2 WholeDatabase = held 2 \<and> last (trace s2) = GetReturned T1
          \<and> waiting s2 = waiting s0 \<and> cond_waiters s2 = cond_waiters s0
          \<and> (case release_db_lock T1 [] s2 of
               Inl err \<Rightarrow> False
             | Inr s3 \<Rightarrow>
                 entry s3 WholeDatabase = held 1
               \<and> (case release_db_lock T1 [] s3 of
                    Inl err \<Rightarrow> False
                  | Inr s4 \<Rightarrow>
                      entry s4 WholeDatabase = None
                    \<and> CondNotify T1 (take 1 (cond_waiters s0)) \<in> set (trace s4)
                    \<and> cond_waiters s4 = drop 1 (cond_waiters s0)))"
proof -
  define s1 where "s1 = get_db_lock_enter T1 mw1 wt1 e1 s0"
  define s2 where "s2 = get_db_lock_enter T1 mw2 wt2 e2 s1"
  define r where "r = length (heap s0)"
  let ?held = "\<lambda>n. Some \<lparr>op_holder = T1, op_acquired_at = t_claim e1, op_count = n,
                           op_warned = False\<rparr>"
  note g1 = get_free [OF free quiet(1), of T1 mw1 wt1, folded s1_def r_def]
  have tb1: "thread_busy s1 WholeDatabase = Some r" and len1: "r < length (heap s1)"
    using g1 by (simp_all add: r_def)
  have obj1: "heap s1 ! r = \<lparr>op_holder = T1, op_acquired_at = t_claim e1, op_count = 1,
                             op_warned = False\<rparr>"
    using g1(1) tb1 by (simp add: entry_def)
  then have h1: "op_holder (heap s1 ! r) = T1" by simp
  note g2 = get_reentrant [OF tb1 len1 h1 quiet(2), of mw2 wt2, folded s2_def]
  have tb2: "thread_busy s2 WholeDatabase = Some r" and len2: "r < length (heap s2)"
    using g2 tb1 len1 by simp_all
  have e2: "entry s2 WholeDatabase = ?held 2"
    using g2(1) obj1 by simp
  then have obj2: "heap s2 ! r = \<lparr>op_holder = T1, op_acquired_at = t_claim e1, op_count = 2,
                                  op_warned = False\<rparr>"
    using tb2 by (simp add: entry_def)
  obtain s3 where r3: "release_db_lock T1 [] s2 = Inr s3"
    and e3: "entry s3 WholeDatabase = ?held 1"
    and tb3: "thread_busy s3 = thread_busy s2" and len3: "length (heap s3) = Suc (length (heap s2))"
    and cw3: "cond_waiters s3 = cond_waiters s2"
    using release_holder_keeps [OF tb2 len2, of T1] obj2 by auto
  have obj3: "heap s3 ! r = \<lparr>op_holder = T1, op_acquired_at = t_claim e1, op_count = 1,
                             op_warned = False\<rparr>"
    using e3 tb3 tb2 by (simp add: entry_def)
  obtain s4 where r4: "release_db_lock T1 [] s3 = Inr s4"
    and tb4: "thread_busy s4 WholeDatabase = None"
    and cw4: "cond_waiters s4 = drop 1 (cond_waiters s3)"
    and tr4: "trace s4 = trace s3 @ [MutexEnter T1, CondNotify T1 (take 1 (cond_waiters s3)),
                                     MutexExit T1]"
    using release_holder_frees [of s3 r T1] tb3 tb2 len3 len2 obj3 by auto
  have "entry s1 WholeDatabase = ?held 1" "last (trace s1) = GetReturned T1"
    using g1 by simp_all
  moreover have "last (trace s2) = GetReturned T1" "waiting s2 = waiting s0"
    "cond_waiters s2 = cond_waiters s0"
    using g1 g2 by simp_all
  moreover have "entry s4 WholeDatabase = None"
    using tb4 by (simp add: entry_def)
  moreover have "CondNotify T1 (take 1 (cond_waiters s0)) \<in> set (trace s4)"
    "cond_waiters s4 = drop 1 (cond_waiters s0)"
    using tr4 cw4 cw3 g1 g2 by simp_all
  ultimately show ?thesis
    using e2 e3 r3 r4 unfolding s1_def [symmetric] s2_def [symmetric] Let_def by simp
qed

theorem single_thread_scenario_witness:
  "let s1 = get_db_lock_enter 1 120 30 (quiet_env 0) init;
       s2 = get_db_lock_enter 1 120 30 (quiet_env 1) s1;
       held = (\<lambda>n. Some \<lparr>op_holder = 1, op_acquired_at = 0, op_count = n, op_warned = False\<rparr>)
   in entry s1 WholeDatabase = held 1 \<and> last (trace s1) = GetReturned 1
    \<and> entry s2 WholeDatabase = held 2 \<and> last (trace s2) = GetReturned 1
    \<and> waiting s2 = waiting init \<and> cond_waiters s2 = cond_waiters init
    \<and> (case release_db_lock 1 [] s2 of
         Inl err \<Rightarrow> False
       | Inr s3 \<Rightarrow>
           entry s3 WholeDatabase = held 1
         \<and> (case release_db_lock 1 [] s3 of
              Inl err \<Rightarrow> False
            | Inr s4 \<Rightarrow>
                entry s4 WholeDatabase = None
              \<and> CondNotify 1 (take 1 (cond_waiters init)) \<in> set (trace s4)
              \<and> cond_waiters s4 = drop 1 (cond_waiters init)))"
proof -
  have free: "thread_busy init WholeDatabase = None"
    by (simp add: init_def)
  have quiet: "role_quiet (quiet_env 0)" "role_quiet (quiet_env 1)"
    by (simp_all add: role_quiet_def quiet_env_def)
  have "t_claim (quiet_env 0) = 0"
    by (simp add: quiet_env_def)
  then show ?thesis
    using single_thread_scenario [OF free quiet, of 1 120 30 120 30] by simp
qed

subsection \<open>What the parts of get_db_lock leave alone\<close>

lemma emit_frame [simp]:
  "heap (emit ev s) = heap s"
  "thread_busy (emit ev s) = thread_busy s"
  "waiting (emit ev s) = waiting s"
  "cond_waiters (emit ev s) = cond_waiters s"
  "trace (emit ev s) = trace s @ [ev]"
  "entry (emit ev s) k = entry s k"
  by (simp_all add: emit_def entry_def)

lemma notify_admin_frame [simp]:
  "heap (notify_admin t m d e s) = heap s"
  "thread_busy (notify_admin t m d e s) = thread_busy s"
  "waiting (notify_admin t m d e s) = waiting s"
  "cond_waiters (notify_admin t m d e s) = cond_waiters s"
  by (simp_all add: notify_admin_def Let_def split: notifier.splits)

lemma entry_notify_admin [simp]: "entry (notify_admin t m d e s) k = entry s k"
  by (simp add: entry_def)

lemma takeover_frame [simp]:
  "heap (snd (takeover t b e s)) = heap s"
  "thread_busy (snd (takeover t b e s)) = thread_busy s"
  "waiting (snd (takeover t b e s)) = waiting s"
  "cond_waiters (snd (takeover t b e s)) = cond_waiters s"
  by (simp_all add: takeover_def emit_def Let_def split: option.splits)

lemma claim_writes [simp]:
  "heap (claim t e s) = heap s @ [\<lparr>op_holder = t, op_acquired_at = t_claim e, op_count = 1,
                                    op_warned = False\<rparr>]"
  "thread_busy (claim t e s) = (thread_busy s)(WholeDatabase \<mapsto> length (heap s))"
  "waiting (claim t e s) = waiting s"
  "cond_waiters (claim t e s) = cond_waiters s"
  by (simp_all add: claim_def emit_def alloc_def)

lemma wait_again_frame [simp]:
  "heap (wait_again t w e s) = heap s"
  "thread_busy (wait_again t w e s) = thread_busy s"
  "waiting (wait_again t w e s) = (waiting s)(t \<mapsto> w)"
  "cond_waiters (wait_again t w e s) = cond_waiters s @ [t]"
  by (simp_all add: wait_again_def emit_def)

lemma warn_frame [simp]:
  "length (heap (warn t w e s)) = length (heap s)"
  "thread_busy (warn t w e s) = thread_busy s"
  "waiting (warn t w e s) = waiting s"
  "cond_waiters (warn t w e s) = cond_waiters s"
  by (simp_all add: warn_def emit_def Let_def)

lemma wait_returns_frame [simp]:
  "heap (wait_returns t s) = heap s"
  "thread_busy (wait_returns t s) = thread_busy s"
  "waiting (wait_returns t s) = (waiting s)(t := None)"
  "cond_waiters (wait_returns t s) = removeAll t (cond_waiters s)"
  "trace (wait_returns t s) = trace s @ [MutexEnter t]"
  by (simp_all add: wait_returns_def)

lemma role_guard_frame:
  "role_guard t e s = Inr s' \<Longrightarrow> heap s' = heap s \<and> thread_busy s' = thread_busy s
     \<and> waiting s' = waiting s \<and> cond_waiters s' = cond_waiters s"
  "role_guard t e s = Inl (err, s') \<Longrightarrow> heap s' = heap s \<and> thread_busy s' = thread_busy s
     \<and> waiting s' = waiting s \<and> cond_waiters s' = cond_waiters s"
  by (auto simp: role_guard_def Let_def split: option.splits server_mode.splits if_splits)

lemma role_guard_quiet: "role_quiet e \<Longrightarrow> \<exists>s'. role_guard t e s = Inr s'"
  by (auto simp: role_guard_def role_quiet_def Let_def)

lemma entry_claim [simp]:
  "entry (claim t e s) WholeDatabase
     = Some \<lparr>op_holder = t, op_acquired_at = t_claim e, op_count = 1, op_warned = False\<rparr>"
  by (simp add: entry_def)

subsection \<open>The branches of a stretch of get_db_lock\<close>

lemma enter_writes:
  "thread_busy (get_db_lock_enter t mw wt e s) = thread_busy s
   \<or> fresh_entry t e s (get_db_lock_enter t mw wt e s)"
proof (cases "role_guard t e s")
  case (Inl a)
  then show ?thesis
    by (cases a) (simp add: get_db_lock_enter_def role_guard_frame(2))
next
  case (Inr s1)
  from role_guard_frame(1) [OF this] show ?thesis
    by (simp add: get_db_lock_enter_def fresh_entry_def Inr Let_def split: option.splits)
qed

lemma enter_free:
  assumes "thread_busy s WholeDatabase = None" "role_quiet e"
  shows "fresh_entry t e s (get_db_lock_enter t mw wt e s)"
proof -
  obtain s1 where "role_guard t e s = Inr s1"
    using role_guard_quiet [OF assms(2)] by blast
  with role_guard_frame(1) [OF this] assms(1) show ?thesis
    by (simp add: get_db_lock_enter_def fresh_entry_def Let_def)
qed

lemma wake_free:
  "thread_busy s WholeDatabase = None \<Longrightarrow>
   get_db_lock_wake t w e s = notify_admin t False None e (claim t e (wait_returns t s))"
  by (simp add: get_db_lock_wake_def Let_def)

lemma wake_takeover:
  "same_op w s \<Longrightarrow> deadline_passed w e \<Longrightarrow>
   get_db_lock_wake t w e s =
     (let r = takeover t (op_holder (heap s ! w_busy_op w)) e (wait_returns t s)
      in notify_admin t (fst (fst r)) (snd (fst r)) e (claim t e (snd r)))"
  by (auto simp: get_db_lock_wake_def same_op_def deadline_passed_def Let_def
           split: option.splits prod.splits)

lemma wake_warn:
  "same_op w s \<Longrightarrow> \<not> deadline_passed w e \<Longrightarrow> t_warn e - w_check_start_time w > w_warning_timeout w \<Longrightarrow>
   get_db_lock_wake t w e s =
     wait_again t (w\<lparr>w_check_start_time := t_check e\<rparr>) e (warn t w e (wait_returns t s))"
  by (auto simp: get_db_lock_wake_def same_op_def deadline_passed_def Let_def
           split: option.splits prod.splits)

lemma wake_wait:
  "same_op w s \<Longrightarrow> \<not> deadline_passed w e \<Longrightarrow> \<not> t_warn e - w_check_start_time w > w_warning_timeout w \<Longrightarrow>
   get_db_lock_wake t w e s = wait_again t w e (wait_returns t s)"
  by (auto simp: get_db_lock_wake_def same_op_def deadline_passed_def Let_def
           split: option.splits prod.splits)

lemma wake_new_episode:
  "thread_busy s WholeDatabase = Some now_busy_op \<Longrightarrow> \<not> same_op w s \<Longrightarrow>
   get_db_lock_wake t w e s =
     wait_again t (w\<lparr>w_busy_op := now_busy_op, w_check_start_time := t_check e\<rparr>) e (wait_returns t s)"
  by (auto simp: get_db_lock_wake_def same_op_def deadline_passed_def Let_def
           split: option.splits prod.splits)

lemma wake_cases:
  obtains (free) "thread_busy s WholeDatabase = None"
  | (takeover) "same_op w s" "deadline_passed w e"
  | (warn) "same_op w s" "\<not> deadline_passed w e" "t_warn e - w_check_start_time w > w_warning_timeout w"
  | (wait) "same_op w s" "\<not> deadline_passed w e" "\<not> t_warn e - w_check_start_time w > w_warning_timeout w"
  | (new_episode) now_busy_op where "thread_busy s WholeDatabase = Some now_busy_op" "\<not> same_op w s"
  by (cases "thread_busy s WholeDatabase") auto

lemma wake_writes:
  "thread_busy (get_db_lock_wake t w e s) = thread_busy s
   \<or> fresh_entry t e s (get_db_lock_wake t w e s)"
  by (rule wake_cases [where s = s and w = w and e = e])
     (simp_all add: wake_free wake_takeover wake_warn wake_wait wake_new_episode fresh_entry_def Let_def)

subsection \<open>New holder states\<close>

text \<open>
  C10. Whenever \<^verbatim>\<open>get_db_lock\<close> writes the entry of the key, in the call itself or after
  a \<^verbatim>\<open>wait\<close>, the entry is a new list \<^verbatim>\<open>[current_id, time.time(), 1, False]\<close>: the
  warned flag starts as \<^verbatim>\<open>False\<close>. A stretch of \<^verbatim>\<open>get_db_lock\<close> either leaves the
  dictionary as it was or leaves such an entry under a reference that did not exist
  before; and it does write one in each of the three cases: the key is free at the call,
  the key is free when the waiter wakes, and the deadline has passed for the holder the
  waiter observed (forced takeover).
\<close>

theorem new_holder_state_unwarned:
  "(thread_busy (get_db_lock_enter t mw wt e s) = thread_busy s
      \<or> fresh_entry t e s (get_db_lock_enter t mw wt e s))
 \<and> (thread_busy (get_db_lock_wake t w e s) = thread_busy s
      \<or> fresh_entry t e s (get_db_lock_wake t w e s))
 \<and> (thread_busy s WholeDatabase = None \<and> role_quiet e
      \<longrightarrow> fresh_entry t e s (get_db_lock_enter t mw wt e s))
 \<and> (thread_busy s WholeDatabase = None \<longrightarrow> fresh_entry t e s (get_db_lock_wake t w e s))
 \<and> (same_op w s \<and> deadline_passed w e \<longrightarrow> fresh_entry t e s (get_db_lock_wake t w e s))"
proof -
  have "fresh_entry t e s (get_db_lock_wake t w e s)" if "thread_busy s WholeDatabase = None"
    using that by (simp add: wake_free fresh_entry_def)
  moreover have "fresh_entry t e s (get_db_lock_wake t w e s)"
    if "same_op w s" "deadline_passed w e"
    using that by (simp add: wake_takeover fresh_entry_def Let_def)
  ultimately show ?thesis
    using enter_writes [of t mw wt e s] wake_writes [of t w e s] enter_free [of s e t mw wt]
    by blast
qed

theorem new_holder_state_unwarned_witness:
  "thread_busy init WholeDatabase = None \<and> role_quiet (quiet_env 0)
 \<and> fresh_entry 1 (quiet_env 0) init (get_db_lock_enter 1 120 30 (quiet_env 0) init)
 \<and> fresh_entry 2 (quiet_env 0) init
      (get_db_lock_wake 2 \<lparr>w_busy_op = 0, w_start_time = 0, w_check_start_time = 0,
          w_max_wait = 120, w_warning_timeout = 30\<rparr> (quiet_env 0) init)
 \<and> same_op \<lparr>w_busy_op = 0, w_start_time = 0, w_check_start_time = 0,
          w_max_wait = 120, w_warning_timeout = 30\<rparr> (get_db_lock_enter 1 120 30 (quiet_env 0) init)
 \<and> deadline_passed \<lparr>w_busy_op = 0, w_start_time = 0, w_check_start_time = 0,
          w_max_wait = 120, w_warning_timeout = 30\<rparr> (quiet_env 121)
 \<and> fresh_entry 2 (quiet_env 121) (get_db_lock_enter 1 120 30 (quiet_env 0) init)
      (get_db_lock_wake 2 \<lparr>w_busy_op = 0, w_start_time = 0, w_check_start_time = 0,
          w_max_wait = 120, w_warning_timeout = 30\<rparr> (quiet_env 121)
          (get_db_lock_enter 1 120 30 (quiet_env 0) init))"
proof -
  let ?w = "\<lparr>w_busy_op = 0, w_start_time = 0, w_check_start_time = 0,
          w_max_wait = 120, w_warning_timeout = 30\<rparr>"
  let ?s = "get_db_lock_enter 1 120 30 (quiet_env 0) init"
  have free: "thread_busy init WholeDatabase = None"
    by (simp add: init_def)
  have quiet: "role_quiet (quiet_env 0)"
    by (simp add: role_quiet_def quiet_env_def)
  have same: "same_op ?w ?s"
    by (simp add: same_op_def get_db_lock_enter_def role_guard_def quiet_env_def init_def Let_def)
  have late: "deadline_passed ?w (quiet_env 121)"
    by (simp add: deadline_passed_def quiet_env_def)
  show ?thesis
    using free quiet same late
      new_holder_state_unwarned [of 1 120 30 "quiet_env 0" init]
      new_holder_state_unwarned [of 2 120 30 "quiet_env 0" init ?w]
      new_holder_state_unwarned [of 2 120 30 "quiet_env 121" ?s ?w]
    by blast
qed

subsection \<open>Release by a thread that is not the holder\<close>

text \<open>
  While some other thread holds the key, \<^verbatim>\<open>release_db_lock\<close> leaves the dictionary and
  the entry as they are and returns.
\<close>

lemma release_by_other_thread:
  assumes "thread_busy s WholeDatabase = Some r" "r < length (heap s)"
    "op_holder (heap s ! r) \<noteq> t"
  shows "case release_db_lock t [] s of
           Inl err \<Rightarrow> False
         | Inr s' \<Rightarrow> thread_busy s' = thread_busy s
                   \<and> entry s' WholeDatabase = entry s WholeDatabase"
  using release_not_holder [OF assms] by auto

text \<open>
  C6. The claim is that a release by a thread that is not the holder is a no-op that
  raises nothing, also when nobody holds the key. On the code, when nobody holds the key
  \<^verbatim>\<open>thread_busy.get(None, None)\<close> is \<^verbatim>\<open>None\<close> and line 138 slices it: a
  \<^verbatim>\<open>TypeError\<close>, which neither handler catches, reaches the caller. Here thread 1 has
  taken and released the key, and thread 2 calls \<^verbatim>\<open>release_db_lock\<close>.
\<close>

theorem release_on_free_key_raises:
  "entry (run [Get 1 120 30 (quiet_env 0), Release 1 []]) WholeDatabase = None
 \<and> (case release_db_lock 2 [] (run [Get 1 120 30 (quiet_env 0), Release 1 []]) of
       Inl (err, s') \<Rightarrow> err = TypeError
     | Inr s' \<Rightarrow> False)
 \<and> last (trace (run [Get 1 120 30 (quiet_env 0), Release 1 [], Release 2 []]))
      = ReleaseRaised 2 TypeError"
  by (simp add: run_def model_defs init_def quiet_env_def)

subsection \<open>Cancellation during release\<close>

text \<open>
  A \<^verbatim>\<open>RuntimeError\<close> that arrives before the snapshot or inside the inner \<^verbatim>\<open>try\<close> is
  rolled back: however many passes are disturbed at these points, the release by the
  holder returns and has made one decrement.
\<close>

lemma release_attempt_rolled_back:
  assumes "thread_busy s WholeDatabase = Some r" "r < length (heap s)"
    "op_holder (heap s ! r) = t" "i \<noteq> AfterInnerTry"
  shows "case release_attempt t i s of
           Completed s' \<Rightarrow>
             entry s' WholeDatabase =
               (if 1 < op_count (heap s ! r)
                then Some ((heap s ! r)\<lparr>op_count := op_count (heap s ! r) - 1\<rparr>) else None)
         | Raised err s' \<Rightarrow> False
         | InnerHandler s' \<Rightarrow>
             (\<exists>r'. thread_busy s' WholeDatabase = Some r' \<and> r' < length (heap s')
                 \<and> heap s' ! r' = heap s ! r)
         | OuterHandler s' \<Rightarrow>
             (\<exists>r'. thread_busy s' WholeDatabase = Some r' \<and> r' < length (heap s')
                 \<and> heap s' ! r' = heap s ! r)"
  using assms
  by (cases i)
     (auto simp: release_attempt_def Let_def alloc_def cond_notify_def entry_def nth_append)

lemma release_rolled_back:
  assumes "thread_busy s WholeDatabase = Some r" "r < length (heap s)"
    "op_holder (heap s ! r) = t" "AfterInnerTry \<notin> set is"
  shows "case release_db_lock t is s of
           Inl err \<Rightarrow> False
         | Inr s' \<Rightarrow>
             entry s' WholeDatabase =
               (if 1 < op_count (heap s ! r)
                then Some ((heap s ! r)\<lparr>op_count := op_count (heap s ! r) - 1\<rparr>) else None)"
  using assms
proof (induction "is" arbitrary: s r)
  case Nil
  then show ?case
    using release_attempt_rolled_back [of s r t Uninterrupted]
    by (cases "release_attempt t Uninterrupted s") simp_all
next
  case (Cons i "is")
  have i: "i \<noteq> AfterInnerTry" and rest: "AfterInnerTry \<notin> set is"
    using Cons.prems(4) by auto
  note step = release_attempt_rolled_back [OF Cons.prems(1-3) i]
  show ?case
  proof (cases "release_attempt t i s")
    case (Completed s')
    then show ?thesis using step by simp
  next
    case (Raised err s')
    then show ?thesis using step by simp
  next
    case (InnerHandler s')
    then obtain r' where r': "thread_busy s' WholeDatabase = Some r'" "r' < length (heap s')"
      "heap s' ! r' = heap s ! r"
      using step by auto
    have "op_holder (heap s' ! r') = t" using r'(3) Cons.prems(3) by simp
    from Cons.IH [OF r'(1,2) this rest] show ?thesis
      using InnerHandler r'(3) by (auto split: sum.splits simp: entry_def)
  next
    case (OuterHandler s')
    then obtain r' where r': "thread_busy s' WholeDatabase = Some r'" "r' < length (heap s')"
      "heap s' ! r' = heap s ! r"
      using step by auto
    let ?s = "emit (Log t KillDuringRelease_150) s'"
    have "thread_busy ?s WholeDatabase = Some r'" "r' < length (heap ?s)"
      "op_holder (heap ?s ! r') = t"
      using r' Cons.prems(3) by simp_all
    from Cons.IH [OF this rest] show ?thesis
      using OuterHandler r'(3) by (auto split: sum.splits)
  qed
qed

text \<open>
  C3. The claim is that a \<^verbatim>\<open>RuntimeError\<close> arriving at any point of a release is rolled
  back and retried, with exactly one decrement in the end and no error for the caller.
  On the code this holds up to the end of the inner \<^verbatim>\<open>try\<close> only. When the error arrives after
  the inner \<^verbatim>\<open>try\<close>, while the \<^verbatim>\<open>with\<close> block is left, the handler of line 149 calls
  \<^verbatim>\<open>release_db_lock\<close> again although the decrement has been made and is not undone:
  a thread holding the key with count 2 loses it by one release, and a thread holding it
  with count 1 gets the \<^verbatim>\<open>TypeError\<close> of line 138 from the second pass.
\<close>

theorem interrupted_release_decrements_twice:
  "map_option op_count
     (entry (run [Get 1 120 30 (quiet_env 0), Get 1 120 30 (quiet_env 1)]) WholeDatabase) = Some 2
 \<and> (case release_db_lock 1 [AfterInnerTry]
           (run [Get 1 120 30 (quiet_env 0), Get 1 120 30 (quiet_env 1)]) of
       Inl err \<Rightarrow> False
     | Inr s' \<Rightarrow> entry s' WholeDatabase = None)
 \<and> (case release_db_lock 1 [AfterInnerTry] (run [Get 1 120 30 (quiet_env 0)]) of
       Inl (err, s') \<Rightarrow> err = TypeError \<and> entry s' WholeDatabase = None
     | Inr s' \<Rightarrow> False)"
  by (simp add: run_def model_defs init_def quiet_env_def)

subsection \<open>Release to zero\<close>

text \<open>
  C7, as the claim states it, fails: with two threads waiting on the condition, the release
  that takes the count to zero removes the entry and calls \<^verbatim>\<open>notify()\<close>, which takes
  one thread off the condition's queue; the other one stays on it.
\<close>

theorem release_wakes_all_counterexample:
  "cond_waiters (run [Get 1 120 30 (quiet_env 0), Get 2 120 30 (quiet_env 1),
                      Get 3 120 30 (quiet_env 2)]) = [2, 3]
 \<and> (case release_db_lock 1 [] (run [Get 1 120 30 (quiet_env 0), Get 2 120 30 (quiet_env 1),
                                     Get 3 120 30 (quiet_env 2)]) of
       Inl err \<Rightarrow> False
     | Inr s' \<Rightarrow> entry s' WholeDatabase = None \<and> cond_waiters s' = [3]
                 \<and> CondNotify 1 [2] \<in> set (trace s'))"
  by (simp add: run_def model_defs init_def quiet_env_def)

text \<open>
  C7, amended. When a release that no \<^verbatim>\<open>RuntimeError\<close> disturbs takes the holder's count
  to zero (or below), it removes the entry and calls \<^verbatim>\<open>notify()\<close> once, which wakes
  the longest waiting thread on the condition, if there is one, and no other.
\<close>

theorem release_to_zero_notifies_one:
  assumes "thread_busy s WholeDatabase = Some r" "r < length (heap s)"
    "op_holder (heap s ! r) = t" "op_count (heap s ! r) \<le> 1"
  shows "case release_db_lock t [] s of
           Inl err \<Rightarrow> False
         | Inr s' \<Rightarrow>
             entry s' WholeDatabase = None
           \<and> cond_waiters s' = drop 1 (cond_waiters s)
           \<and> trace s' = trace s @ [MutexEnter t, CondNotify t (take 1 (cond_waiters s)),
                                    MutexExit t]"
  using release_holder_frees [OF assms] by (auto simp: entry_def)

theorem release_to_zero_notifies_one_witness:
  "case release_db_lock 1 [] (run [Get 1 120 30 (quiet_env 0), Get 2 120 30 (quiet_env 1),
                                   Get 3 120 30 (quiet_env 2)]) of
     Inl err \<Rightarrow> False
   | Inr s' \<Rightarrow>
       entry s' WholeDatabase = None
     \<and> cond_waiters s' = drop 1 [2, 3]
     \<and> trace s' = trace (run [Get 1 120 30 (quiet_env 0), Get 2 120 30 (quiet_env 1),
                               Get 3 120 30 (quiet_env 2)])
                   @ [MutexEnter 1, CondNotify 1 (take 1 [2, 3]), MutexExit 1]"
proof -
  let ?s = "run [Get 1 120 30 (quiet_env 0), Get 2 120 30 (quiet_env 1),
                 Get 3 120 30 (quiet_env 2)]"
  have h: "thread_busy ?s WholeDatabase = Some 0" "0 < length (heap ?s)"
    "op_holder (heap ?s ! 0) = 1" "op_count (heap ?s ! 0) \<le> 1"
    "cond_waiters ?s = [2, 3]"
    by (simp_all add: run_def model_defs init_def quiet_env_def)
  show ?thesis
    using release_to_zero_notifies_one [OF h(1-4)] unfolding h(5) .
qed

subsection \<open>The events of each part\<close>

lemma trace_claim [simp]: "trace (claim t e s) = trace s @ [Claimed t, MutexExit t]"
  by (simp add: claim_def alloc_def emit_def)

lemma trace_wait_again [simp]:
  "trace (wait_again t w e s) = trace s @
     [Log t (Waiting_65 (op_holder (heap s ! w_busy_op w)) (w_max_wait w)),
      CondWait t (w_warning_timeout w - (t_wait e - w_check_start_time w)), MutexExit t]"
  by (simp add: wait_again_def emit_def)

lemma trace_notify_admin:
  "trace (notify_admin t m d e s) = trace s @
     (if m \<and> d \<noteq> None \<and> d \<noteq> Some []
      then Call t SelectEmailAdmin #
        (case admin e of
           SelectRaises \<Rightarrow> [GetRaised t CollaboratorError]
         | NoEmailer \<Rightarrow> [Log t NoAdminEmailer_130, GetReturned t]
         | EmailerSends \<Rightarrow> [Call t EmailAdmin, GetReturned t]
         | EmailerRaises \<Rightarrow> [Call t EmailAdmin, GetRaised t CollaboratorError])
      else [GetReturned t])"
  by (simp add: notify_admin_def Let_def split: notifier.splits)

lemma trace_takeover:
  "trace (snd (takeover t b e s)) = trace s @
     Call t (FindThreadFrame b) #
     (if \<not> frame_ok e then [Log t (ErrorCreatingTracebacks_104 b)]
      else Call t FormatTraceback #
        (if \<not> format_ok e then [Log t (ErrorCreatingTracebacks_104 b)]
         else [Log t (TimedOutKilling_77 b), Log t TracebackToKill_79, Call t (ThreadAsyncRaise b)] @
           (if \<not> raise_ok e then [Log t (ErrorCreatingTracebacks_104 b)]
            else Call t Creole2xhtml #
              (case render e of None \<Rightarrow> [Log t (ErrorCreatingTracebacks_104 b)] | Some doc \<Rightarrow> []))))"
  by (simp add: takeover_def Let_def split: option.splits)

lemma fst_takeover:
  "fst (takeover t b e s) =
     (if frame_ok e \<and> format_ok e \<and> raise_ok e \<and> render e \<noteq> None
      then (True, render e) else (False, None))"
  by (auto simp: takeover_def Let_def split: option.splits)

lemma trace_warn:
  "trace (warn t w e s) = trace s @
     (if op_warned (heap s ! w_busy_op w) then []
      else Call t (FindThreadFrame (op_holder (heap s ! w_busy_op w))) #
        (if \<not> frame_ok e then [Log t WarnException_116]
         else Call t FormatTraceback #
           (if \<not> format_ok e then [Log t WarnException_116]
            else [Log t (StillWaiting_112 (w_warning_timeout w)), Log t WarnTraceback_113])))"
  by (simp add: warn_def Let_def)

lemma trace_role_guard:
  "role_guard t e s = Inr s' \<Longrightarrow> trace s' = trace s @
     Call t ServerModeQuery #
       (if mode_query e = Some SLAVE
        then [Log t SlaveRequest_48, Call t (FindThreadFrame t), Call t FormatTraceback,
              Log t SlaveTraceback_51] else [])"
  "role_guard t e s = Inl (err, s') \<Longrightarrow> trace s' = trace s @
     Call t ServerModeQuery #
       (if mode_query e = Some SLAVE
        then [Log t SlaveRequest_48, Call t (FindThreadFrame t)]
             @ (if frame_ok e then [Call t FormatTraceback] else [])
        else [])"
  by (auto simp: role_guard_def Let_def split: option.splits server_mode.splits if_splits)

subsection \<open>Collaborators and the mutex\<close>

lemma held_calls_append:
  "held_calls d (xs @ ys) = held_calls d xs @ held_calls (mutex_depth d xs) ys"
  by (induction d xs rule: held_calls.induct) simp_all

lemma mutex_depth_append:
  "mutex_depth d (xs @ ys) = mutex_depth (mutex_depth d xs) ys"
  by (induction d xs rule: mutex_depth.induct) simp_all


lemma exec_release_final:
  "exec s (Release t is) =
     (if waiting s t = None
      then emit (case release_db_lock t is s of Inr s' \<Rightarrow> ReleaseReturned t
                 | Inl (err, s') \<Rightarrow> ReleaseRaised t err) (final (release_db_lock t is s))
      else s)"
  by (auto split: sum.splits)

lemma release_attempt_trace:
  "case release_attempt t i s of
     InnerHandler s' \<Rightarrow> \<exists>evs. trace s' = trace s @ evs
        \<and> (\<forall>d. held_calls d evs = [] \<and> mutex_depth d evs = Suc d)
   | Completed s' \<Rightarrow> \<exists>evs. trace s' = trace s @ evs
        \<and> (\<forall>d. held_calls d evs = [] \<and> mutex_depth d evs = d)
   | Raised err s' \<Rightarrow> \<exists>evs. trace s' = trace s @ evs
        \<and> (\<forall>d. held_calls d evs = [] \<and> mutex_depth d evs = d)
   | OuterHandler s' \<Rightarrow> \<exists>evs. trace s' = trace s @ evs
        \<and> (\<forall>d. held_calls d evs = [] \<and> mutex_depth d evs = d)"
  by (simp add: release_attempt_def Let_def emit_def alloc_def cond_notify_def split: option.splits)


lemma release_db_lock_trace:
  "\<exists>evs. trace (final (release_db_lock t is s)) = trace s @ evs
        \<and> (\<forall>d. held_calls d evs = [] \<and> mutex_depth d evs = d)"
proof (induction "is" arbitrary: s)
  case Nil
  show ?case
    using release_attempt_trace [where t = t and i = Uninterrupted and s = s]
    by (auto split: attempt.splits)
next
  case (Cons i "is")
  show ?case
  proof (cases "release_attempt t i s")
    case (Completed s')
    then show ?thesis using release_attempt_trace [where t = t and i = i and s = s] by auto
  next
    case (Raised err s')
    then show ?thesis using release_attempt_trace [where t = t and i = i and s = s] by auto
  next
    case (InnerHandler s')
    then obtain evs where 1: "trace s' = trace s @ evs"
      "\<And>d. held_calls d evs = [] \<and> mutex_depth d evs = Suc d"
      using release_attempt_trace [where t = t and i = i and s = s] by auto
    obtain evs' where 2: "trace (final (release_db_lock t is s')) = trace s' @ evs'"
      "\<And>d. held_calls d evs' = [] \<and> mutex_depth d evs' = d"
      using Cons.IH [of s'] by auto
    have "trace (final (release_db_lock t (i # is) s)) = trace s @ (evs @ evs' @ [MutexExit t])"
      using InnerHandler 1(1) 2(1) by (auto split: sum.splits)
    moreover have "\<And>d. held_calls d (evs @ evs' @ [MutexExit t]) = []
        \<and> mutex_depth d (evs @ evs' @ [MutexExit t]) = d"
      using 1(2) 2(2) by (simp add: held_calls_append mutex_depth_append)
    ultimately show ?thesis by blast
  next
    case (OuterHandler s')
    then obtain evs where 1: "trace s' = trace s @ evs"
      "\<And>d. held_calls d evs = [] \<and> mutex_depth d evs = d"
      using release_attempt_trace [where t = t and i = i and s = s] by auto
    obtain evs' where 2: "trace (final (release_db_lock t is
          (emit (Log t KillDuringRelease_150) s'))) = trace s' @ [Log t KillDuringRelease_150] @ evs'"
      "\<And>d. held_calls d evs' = [] \<and> mutex_depth d evs' = d"
      using Cons.IH [of "emit (Log t KillDuringRelease_150) s'"] by auto
    have "trace (final (release_db_lock t (i # is) s))
            = trace s @ (evs @ [Log t KillDuringRelease_150] @ evs')"
      using OuterHandler 1(1) 2(1) by simp
    moreover have "\<And>d. held_calls d (evs @ [Log t KillDuringRelease_150] @ evs') = []
        \<and> mutex_depth d (evs @ [Log t KillDuringRelease_150] @ evs') = d"
      using 1(2) 2(2) by (simp add: held_calls_append mutex_depth_append)
    ultimately show ?thesis by blast
  qed
qed

lemma admin_outside_mutex_append:
  "mutex_depth 0 xs = 0 \<Longrightarrow>
   admin_outside_mutex (xs @ ys) = (admin_outside_mutex xs \<and> admin_outside_mutex ys)"
  by (simp add: admin_outside_mutex_def held_calls_append)

lemma enter_mutex:
  assumes "mutex_depth 0 (trace s) = 0" "admin_outside_mutex (trace s)"
  shows "mutex_depth 0 (trace (get_db_lock_enter t mw wt e s)) = 0
       \<and> admin_outside_mutex (trace (get_db_lock_enter t mw wt e s))"
proof (cases "role_guard t e s")
  case (Inl a)
  obtain err s' where a: "a = (err, s')" by (cases a)
  show ?thesis
    using assms trace_role_guard(2) [OF Inl [unfolded a]]
    by (simp add: get_db_lock_enter_def Inl a mutex_depth_append held_calls_append
        admin_outside_mutex_def)
next
  case (Inr s1)
  show ?thesis
    using assms trace_role_guard(1) [OF Inr]
    by (simp add: get_db_lock_enter_def Inr Let_def trace_notify_admin mutex_depth_append
        held_calls_append admin_outside_mutex_def split: option.splits)
qed

lemma wake_mutex:
  assumes "mutex_depth 0 (trace s) = 0" "admin_outside_mutex (trace s)"
  shows "mutex_depth 0 (trace (get_db_lock_wake t w e s)) = 0
       \<and> admin_outside_mutex (trace (get_db_lock_wake t w e s))"
  using assms
  by (rule_tac wake_cases [where s = s and w = w and e = e])
     (simp_all add: wake_free wake_takeover wake_warn wake_wait wake_new_episode Let_def
        trace_notify_admin trace_takeover trace_warn fst_takeover mutex_depth_append
        held_calls_append admin_outside_mutex_def split: notifier.splits option.splits)

lemma exec_mutex:
  assumes "mutex_depth 0 (trace s) = 0" "admin_outside_mutex (trace s)"
  shows "mutex_depth 0 (trace (exec s x)) = 0 \<and> admin_outside_mutex (trace (exec s x))"
proof (cases x)
  case (Get t mw wt e)
  then show ?thesis using assms enter_mutex by simp
next
  case (Wake t e)
  then show ?thesis using assms wake_mutex by (simp split: option.splits)
next
  case (Release t "is")
  obtain evs where "trace (final (release_db_lock t is s)) = trace s @ evs"
      "\<And>d. held_calls d evs = [] \<and> mutex_depth d evs = d"
    using release_db_lock_trace [of t "is" s] by auto
  then show ?thesis
    using assms unfolding Release exec_release_final
    by (simp add: mutex_depth_append held_calls_append admin_outside_mutex_def
        split: sum.splits)
qed

lemma run_snoc: "run (steps @ [x]) = exec (run steps) x"
  by (simp add: run_def)

lemma run_mutex:
  "mutex_depth 0 (trace (run steps)) = 0 \<and> admin_outside_mutex (trace (run steps))"
proof (induction steps rule: rev_induct)
  case Nil
  show ?case by (simp add: run_def init_def admin_outside_mutex_def)
next
  case (snoc x steps)
  then show ?case using exec_mutex by (simp add: run_snoc)
qed


text \<open>
  C9, as the claim states it, fails: when thread 2 takes the key over from thread 1, it
  captures the stack of thread 1, formats it, raises the \<^verbatim>\<open>RuntimeError\<close> into thread 1
  and renders the document inside the \<^verbatim>\<open>with\<close> block, all while it holds the mutex.
\<close>

theorem takeover_calls_under_mutex_counterexample:
  "held_calls 0 (trace (run [Get 1 120 30 (quiet_env 0), Get 2 120 30 (quiet_env 0),
                            Wake 2 (quiet_env 121)]))
     = [(2, FindThreadFrame 1), (2, FormatTraceback), (2, ThreadAsyncRaise 1), (2, Creole2xhtml)]
 \<and> entry (run [Get 1 120 30 (quiet_env 0), Get 2 120 30 (quiet_env 0),
               Wake 2 (quiet_env 121)]) WholeDatabase
     = Some \<lparr>op_holder = 2, op_acquired_at = 121, op_count = 1, op_warned = False\<rparr>"
  by (simp add: run_def model_defs init_def quiet_env_def)

text \<open>
  C9, amended. In every run, the admin notifier (lines 126 and 128) is never called while
  the mutex is held; on the forced takeover path the capture of the blocking thread's
  stack, and after it the delivery of the cancellation and the rendering of the document
  as far as the code gets to them, are made while the mutex is held.
\<close>

theorem admin_notified_outside_mutex:
  "admin_outside_mutex (trace (run steps))
 \<and> (waiting (run steps) t = Some w \<and> same_op w (run steps) \<and> deadline_passed w e \<longrightarrow>
      (let blocker = op_holder (heap (run steps) ! w_busy_op w);
           held = set (held_calls 0 (trace (exec (run steps) (Wake t e))))
       in (t, FindThreadFrame blocker) \<in> held
        \<and> (frame_ok e \<and> format_ok e \<longrightarrow> (t, ThreadAsyncRaise blocker) \<in> held)
        \<and> (frame_ok e \<and> format_ok e \<and> raise_ok e \<longrightarrow> (t, Creole2xhtml) \<in> held)))"
proof -
  have "mutex_depth 0 (trace (run steps)) = 0"
    using run_mutex by blast
  then show ?thesis
    using run_mutex [of steps]
    by (simp add: wake_takeover Let_def trace_notify_admin trace_takeover
        held_calls_append mutex_depth_append)
qed

theorem admin_notified_outside_mutex_witness:
  "waiting (run [Get 1 120 30 (quiet_env 0), Get 2 120 30 (quiet_env 0)]) 2
     = Some \<lparr>w_busy_op = 0, w_start_time = 0, w_check_start_time = 0, w_max_wait = 120,
             w_warning_timeout = 30\<rparr>
 \<and> Call 2 EmailAdmin \<in> set (trace (run [Get 1 120 30 (quiet_env 0), Get 2 120 30 (quiet_env 0),
                                          Wake 2 (quiet_env 121)]))
 \<and> admin_outside_mutex (trace (run [Get 1 120 30 (quiet_env 0), Get 2 120 30 (quiet_env 0),
                                     Wake 2 (quiet_env 121)]))
 \<and> (2, Creole2xhtml) \<in> set (held_calls 0 (trace
       (exec (run [Get 1 120 30 (quiet_env 0), Get 2 120 30 (quiet_env 0)])
          (Wake 2 (quiet_env 121)))))"
proof -
  let ?s = "run [Get 1 120 30 (quiet_env 0), Get 2 120 30 (quiet_env 0)]"
  let ?w = "\<lparr>w_busy_op = 0, w_start_time = 0, w_check_start_time = 0, w_max_wait = 120,
             w_warning_timeout = 30\<rparr>"
  have w: "waiting ?s 2 = Some ?w"
    by (simp add: run_def model_defs init_def quiet_env_def)
  have same: "same_op ?w ?s"
    by (simp add: same_op_def run_def model_defs init_def quiet_env_def)
  have late: "deadline_passed ?w (quiet_env 121)"
    by (simp add: deadline_passed_def quiet_env_def)
  have ok: "frame_ok (quiet_env 121)" "format_ok (quiet_env 121)" "raise_ok (quiet_env 121)"
    by (simp_all add: quiet_env_def)
  have sent: "Call 2 EmailAdmin \<in> set (trace (run [Get 1 120 30 (quiet_env 0),
       Get 2 120 30 (quiet_env 0), Wake 2 (quiet_env 121)]))"
    by (simp add: run_def model_defs init_def quiet_env_def)
  show ?thesis
    using w same late ok sent
      admin_notified_outside_mutex [of "[Get 1 120 30 (quiet_env 0), Get 2 120 30 (quiet_env 0),
          Wake 2 (quiet_env 121)]"]
      admin_notified_outside_mutex [of "[Get 1 120 30 (quiet_env 0), Get 2 120 30 (quiet_env 0)]"
          2 ?w "quiet_env 121"]
    by (simp add: Let_def)
qed

subsection \<open>Failures of collaborators\<close>

lemma loop_outcomes_simps [simp]:
  "t_claim (loop_outcomes f1 f2 f3 d e) = t_claim e"
  "t_check (loop_outcomes f1 f2 f3 d e) = t_check e"
  "t_wait (loop_outcomes f1 f2 f3 d e) = t_wait e"
  "t_warn (loop_outcomes f1 f2 f3 d e) = t_warn e"
  "t_deadline (loop_outcomes f1 f2 f3 d e) = t_deadline e"
  "admin (loop_outcomes f1 f2 f3 d e) = admin e"
  "deadline_passed w (loop_outcomes f1 f2 f3 d e) = deadline_passed w e"
  by (simp_all add: loop_outcomes_def deadline_passed_def)

lemma lock_view_emit [simp]: "lock_view (emit ev s) = lock_view s"
  by (simp add: lock_view_def)

lemma lock_view_notify_admin [simp]: "lock_view (notify_admin t m d e s) = lock_view s"
  by (simp add: lock_view_def)

lemma lock_view_takeover [simp]: "lock_view (snd (takeover t b e s)) = lock_view (s)"
  by (simp add: lock_view_def)

lemma lock_view_claim [simp]:
  "lock_view (claim t e s) =
     (case lock_view s of (tb, h, wt, cw) \<Rightarrow>
        (tb(WholeDatabase \<mapsto> length h), h @ [(t, t_claim e, 1)], wt, cw))"
  by (simp add: lock_view_def)

lemma lock_view_wait_again [simp]:
  "lock_view (wait_again t w e s) =
     (case lock_view s of (tb, h, wt, cw) \<Rightarrow> (tb, h, wt(t \<mapsto> w), cw @ [t]))"
  by (simp add: lock_view_def)

lemma heap_warn:
  "heap (warn t w e s) = heap s
   \<or> heap (warn t w e s) = (heap s)[w_busy_op w := (heap s ! w_busy_op w)\<lparr>op_warned := True\<rparr>]"
  by (simp add: warn_def Let_def)

lemma map_update_same: "f y = f (xs ! i) \<Longrightarrow> map f (xs[i := y]) = map f xs"
  by (cases "i < length xs") (auto simp: list_eq_iff_nth_eq nth_list_update)

lemma lock_view_warn [simp]: "lock_view (warn t w e s) = lock_view s"
  using heap_warn [of t w e s]
  by (auto simp: lock_view_def map_update_same)







subsection \<open>The deadline of a waiter\<close>

text \<open>
  C2. The claim is that a new holder restarts the waiter's clocks, so that a waiter takes
  the key over only from a holder it has observed for more than \<^verbatim>\<open>max_wait\<close>. On the
  code, line 120 restarts \<^verbatim>\<open>check_start_time\<close> only; \<^verbatim>\<open>start_time\<close>, which line 71
  compares with \<^verbatim>\<open>max_wait\<close>, stays at the time of the call. Thread 2 calls at time 0
  while thread 1 holds the key; thread 1 releases and thread 3 takes the key at time 90;
  thread 2 wakes at time 100, sees the new holder and keeps \<^verbatim>\<open>start_time = 0\<close>; at time
  121 it wakes again and takes the key over from thread 3, raising the \<^verbatim>\<open>RuntimeError\<close>
  into it, 21 seconds after it first saw thread 3 hold the key, with \<^verbatim>\<open>max_wait = 120\<close>.
\<close>

theorem takeover_counts_from_call_not_from_holder:
  "(let s = run [Get 1 120 30 (quiet_env 0), Get 2 120 30 (quiet_env 0), Release 1 [],
                 Get 3 120 30 (quiet_env 90), Wake 2 (quiet_env 100)]
    in entry s WholeDatabase
         = Some \<lparr>op_holder = 3, op_acquired_at = 90, op_count = 1, op_warned = False\<rparr>
     \<and> waiting s 2 = Some \<lparr>w_busy_op = 2, w_start_time = 0, w_check_start_time = 100,
                             w_max_wait = 120, w_warning_timeout = 30\<rparr>
     \<and> Call 2 (ThreadAsyncRaise 3) \<in> set (trace (exec s (Wake 2 (quiet_env 121))))
     \<and> entry (exec s (Wake 2 (quiet_env 121))) WholeDatabase
         = Some \<lparr>op_holder = 2, op_acquired_at = 121, op_count = 1, op_warned = False\<rparr>)"
  by (simp add: run_def model_defs init_def quiet_env_def)

subsection \<open>The invariant of the lock table\<close>

lemma table_inv_iff:
  "table_inv s k =
     (case thread_busy s k of None \<Rightarrow> True
      | Some r \<Rightarrow> r < length (heap s) \<and> 1 \<le> op_count (heap s ! r))"
  by (auto simp: table_inv_def holders_def entry_def split: option.splits)

lemma init_inv: "table_inv init k" "frames_inv init"
  by (simp_all add: table_inv_iff frames_inv_def init_def)

lemma enter_inv:
  assumes "table_inv s WholeDatabase" "frames_inv s"
  shows "table_inv (get_db_lock_enter t mw wt e s) WholeDatabase
       \<and> frames_inv (get_db_lock_enter t mw wt e s)"
proof (cases "role_guard t e s")
  case (Inl a)
  obtain err s' where a: "a = (err, s')" by (cases a)
  show ?thesis
    using assms role_guard_frame(2) [OF Inl [unfolded a]]
    by (simp add: get_db_lock_enter_def Inl a table_inv_iff frames_inv_def split: option.splits)
next
  case (Inr s1)
  show ?thesis
    using assms role_guard_frame(1) [OF Inr]
    by (auto simp: get_db_lock_enter_def Inr Let_def table_inv_iff frames_inv_def
        nth_list_update less_Suc_eq split: option.splits)
qed

lemma wake_inv:
  assumes "table_inv s WholeDatabase" "frames_inv s" "waiting s t = Some w"
  shows "table_inv (get_db_lock_wake t w e s) WholeDatabase
       \<and> frames_inv (get_db_lock_wake t w e s)"
proof (rule wake_cases [where s = s and w = w and e = e])
  assume "thread_busy s WholeDatabase = None"
  then show ?thesis using assms
    by (auto simp: wake_free table_inv_iff frames_inv_def less_Suc_eq split: if_splits)
next
  assume "same_op w s" "deadline_passed w e"
  then show ?thesis using assms
    by (auto simp: wake_takeover Let_def table_inv_iff frames_inv_def less_Suc_eq split: if_splits)
next
  assume "same_op w s" "\<not> deadline_passed w e" "t_warn e - w_check_start_time w > w_warning_timeout w"
  then show ?thesis using assms heap_warn [of t w e "wait_returns t s"]
    by (auto simp: wake_warn table_inv_iff frames_inv_def nth_list_update
        split: option.splits if_splits)
next
  assume "same_op w s" "\<not> deadline_passed w e" "\<not> t_warn e - w_check_start_time w > w_warning_timeout w"
  then show ?thesis using assms
    by (auto simp: wake_wait table_inv_iff frames_inv_def split: option.splits if_splits)
next
  fix now_busy_op assume "thread_busy s WholeDatabase = Some now_busy_op" "\<not> same_op w s"
  then show ?thesis using assms
    by (auto simp: wake_new_episode table_inv_iff frames_inv_def split: option.splits if_splits)
qed


lemma release_attempt_inv:
  assumes "table_inv s WholeDatabase" "frames_inv s"
  shows "table_inv (outcome (release_attempt t i s)) WholeDatabase
       \<and> frames_inv (outcome (release_attempt t i s))"
  using assms
  by (auto simp: release_attempt_def Let_def alloc_def cond_notify_def table_inv_iff
      frames_inv_def nth_append nth_list_update less_Suc_eq split: option.splits)


lemma inv_emit [simp]:
  "table_inv (emit ev s) k = table_inv s k" "frames_inv (emit ev s) = frames_inv s"
  by (simp_all add: table_inv_iff frames_inv_def split: option.splits)

lemma release_db_lock_inv:
  assumes "table_inv s WholeDatabase" "frames_inv s"
  shows "table_inv (final (release_db_lock t is s)) WholeDatabase
       \<and> frames_inv (final (release_db_lock t is s))"
  using assms
proof (induction "is" arbitrary: s)
  case Nil
  then show ?case
    using release_attempt_inv [of s t Uninterrupted]
    by (cases "release_attempt t Uninterrupted s") simp_all
next
  case (Cons i "is")
  note step = release_attempt_inv [OF Cons.prems, of t i]
  show ?case
  proof (cases "release_attempt t i s")
    case (Completed s')
    then show ?thesis using step by simp
  next
    case (Raised err s')
    then show ?thesis using step by simp
  next
    case (InnerHandler s')
    then have "table_inv s' WholeDatabase" "frames_inv s'" using step by simp_all
    from Cons.IH [OF this] show ?thesis
      using InnerHandler by (cases "release_db_lock t is s'") auto
  next
    case (OuterHandler s')
    then have "table_inv (emit (Log t KillDuringRelease_150) s') WholeDatabase"
      "frames_inv (emit (Log t KillDuringRelease_150) s')" using step by simp_all
    from Cons.IH [OF this] show ?thesis
      using OuterHandler by simp
  qed
qed

lemma exec_inv:
  assumes "table_inv s WholeDatabase" "frames_inv s"
  shows "table_inv (exec s x) WholeDatabase \<and> frames_inv (exec s x)"
proof (cases x)
  case (Get t mw wt e)
  then show ?thesis using assms enter_inv by simp
next
  case (Wake t e)
  then show ?thesis using assms wake_inv by (simp split: option.splits)
next
  case (Release t "is")
  then show ?thesis
    using assms release_db_lock_inv [OF assms, of t "is"]
    unfolding Release exec_release_final by (simp split: sum.splits)
qed

lemma run_inv: "table_inv (run steps) WholeDatabase \<and> frames_inv (run steps)"
proof (induction steps rule: rev_induct)
  case Nil
  show ?case by (simp add: run_def init_inv)
next
  case (snoc x steps)
  then show ?case using exec_inv by (simp add: run_snoc)
qed













subsection \<open>Warnings\<close>

lemma nth_update_any: "xs[i := y] ! j = (if i = j \<and> i < length xs then y else xs ! j)"
  by (cases "i < length xs") (auto simp: nth_list_update list_update_beyond)

lemma flags_kept_refl [simp]: "flags_kept s s"
  by (simp add: flags_kept_def)

lemma flags_kept_trans: "flags_kept s s' \<Longrightarrow> flags_kept s' s'' \<Longrightarrow> flags_kept s s''"
  by (auto simp: flags_kept_def)

lemma flags_kept_emit [simp]:
  "flags_kept s (emit ev s') = flags_kept s s'" "flags_kept (emit ev s) s' = flags_kept s s'"
  by (simp_all add: flags_kept_def)

lemma flags_kept_heap: "heap s' = heap s \<Longrightarrow> flags_kept s s'"
  by (simp add: flags_kept_def)

lemma release_attempt_flags:
  "flags_kept s (outcome (release_attempt t i s))
   \<and> waiting (outcome (release_attempt t i s)) = waiting s"
  by (auto simp: release_attempt_def Let_def alloc_def cond_notify_def flags_kept_def
      nth_append nth_list_update split: option.splits)

lemma release_db_lock_flags:
  "flags_kept s (final (release_db_lock t is s))
   \<and> waiting (final (release_db_lock t is s)) = waiting s"
proof (induction "is" arbitrary: s)
  case Nil
  show ?case
    using release_attempt_flags [of s t Uninterrupted]
    by (cases "release_attempt t Uninterrupted s") simp_all
next
  case (Cons i "is")
  note step = release_attempt_flags [of s t i]
  show ?case
  proof (cases "release_attempt t i s")
    case (Completed s')
    then show ?thesis using step by simp
  next
    case (Raised err s')
    then show ?thesis using step by simp
  next
    case (InnerHandler s')
    then have 1: "flags_kept s s'" "waiting s' = waiting s" using step by simp_all
    show ?thesis
      using InnerHandler 1 Cons.IH [of s'] flags_kept_trans [OF 1(1)]
      by (cases "release_db_lock t is s'") auto
  next
    case (OuterHandler s')
    then have 1: "flags_kept s (emit (Log t KillDuringRelease_150) s')" "waiting s' = waiting s"
      using step by simp_all
    show ?thesis
      using OuterHandler 1 Cons.IH [of "emit (Log t KillDuringRelease_150) s'"]
        flags_kept_trans [OF 1(1)]
      by simp
  qed
qed

lemma enter_flags:
  "flags_kept s (get_db_lock_enter t mw wt e s)
   \<and> (u \<noteq> t \<longrightarrow> waiting (get_db_lock_enter t mw wt e s) u = waiting s u)"
proof (cases "role_guard t e s")
  case (Inl a)
  obtain err s' where a: "a = (err, s')" by (cases a)
  show ?thesis
    using role_guard_frame(2) [OF Inl [unfolded a]]
    by (simp add: get_db_lock_enter_def Inl a flags_kept_heap)
next
  case (Inr s1)
  show ?thesis
    using role_guard_frame(1) [OF Inr]
    by (auto simp: get_db_lock_enter_def Inr Let_def flags_kept_def nth_append nth_update_any
        split: option.splits)
qed

lemma warn_flags: "flags_kept s (warn t w e s)"
  using heap_warn [of t w e s] by (auto simp: flags_kept_def nth_update_any)

lemma wake_flags:
  "flags_kept s (get_db_lock_wake t w e s)
   \<and> (u \<noteq> t \<longrightarrow> waiting (get_db_lock_wake t w e s) u = waiting s u)"
proof (rule wake_cases [where s = s and w = w and e = e])
  assume "thread_busy s WholeDatabase = None"
  then show ?thesis by (simp add: wake_free flags_kept_def nth_append)
next
  assume "same_op w s" "deadline_passed w e"
  then show ?thesis by (simp add: wake_takeover Let_def flags_kept_def nth_append)
next
  assume "same_op w s" "\<not> deadline_passed w e" "t_warn e - w_check_start_time w > w_warning_timeout w"
  then show ?thesis using warn_flags [of "wait_returns t s" t w e]
    by (simp add: wake_warn flags_kept_def)
next
  assume "same_op w s" "\<not> deadline_passed w e" "\<not> t_warn e - w_check_start_time w > w_warning_timeout w"
  then show ?thesis by (simp add: wake_wait flags_kept_def)
next
  fix now_busy_op assume "thread_busy s WholeDatabase = Some now_busy_op" "\<not> same_op w s"
  then show ?thesis by (simp add: wake_new_episode flags_kept_def)
qed

lemma exec_flags:
  "flags_kept s (exec s x) \<and> (actor x \<noteq> u \<longrightarrow> waiting (exec s x) u = waiting s u)"
proof (cases x)
  case (Get t mw wt e)
  then show ?thesis using enter_flags [of s t mw wt e u] by auto
next
  case (Wake t e)
  then show ?thesis using wake_flags [of s t _ e u] by (auto split: option.splits)
next
  case (Release t "is")
  then show ?thesis
    using release_db_lock_flags [of s t "is"]
    unfolding Release exec_release_final by (simp split: sum.splits)
qed

lemma warnings_append [simp]: "warnings u (xs @ ys) = warnings u xs + warnings u ys"
  by (simp add: warnings_def)

lemma warnings_simps [simp]:
  "warnings u [] = 0"
  "warnings u (ev # evs) = (if is_warning u ev then 1 else 0) + warnings u evs"
  by (simp_all add: warnings_def)

lemma release_attempt_warnings:
  "warnings u (trace (outcome (release_attempt t i s))) = warnings u (trace s)"
  by (simp add: release_attempt_def Let_def alloc_def cond_notify_def split: option.splits)

lemma release_db_lock_warnings:
  "warnings u (trace (final (release_db_lock t is s))) = warnings u (trace s)"
proof (induction "is" arbitrary: s)
  case Nil
  show ?case
    using release_attempt_warnings [of u t Uninterrupted s]
    by (cases "release_attempt t Uninterrupted s") simp_all
next
  case (Cons i "is")
  note step = release_attempt_warnings [of u t i s]
  show ?case
  proof (cases "release_attempt t i s")
    case (Completed s')
    then show ?thesis using step by simp
  next
    case (Raised err s')
    then show ?thesis using step by simp
  next
    case (InnerHandler s')
    then show ?thesis
      using step Cons.IH [of s'] by (cases "release_db_lock t is s'") auto
  next
    case (OuterHandler s')
    then show ?thesis
      using step Cons.IH [of "emit (Log t KillDuringRelease_150) s'"] by simp
  qed
qed

lemma enter_warnings:
  "warnings u (trace (get_db_lock_enter t mw wt e s)) = warnings u (trace s)"
proof (cases "role_guard t e s")
  case (Inl a)
  obtain err s' where a: "a = (err, s')" by (cases a)
  show ?thesis
    using trace_role_guard(2) [OF Inl [unfolded a]]
    by (simp add: get_db_lock_enter_def Inl a)
next
  case (Inr s1)
  show ?thesis
    using trace_role_guard(1) [OF Inr]
    by (simp add: get_db_lock_enter_def Inr Let_def trace_notify_admin split: option.splits)
qed

lemma warn_warnings:
  "warnings u (trace (warn t w e s)) = warnings u (trace s)
     + (if u = t \<and> \<not> op_warned (heap s ! w_busy_op w) \<and> frame_ok e \<and> format_ok e then 1 else 0)"
  by (simp add: trace_warn)

lemma warn_sets_flag:
  "w_busy_op w < length (heap s) \<Longrightarrow> \<not> op_warned (heap s ! w_busy_op w)
   \<Longrightarrow> frame_ok e \<Longrightarrow> format_ok e \<Longrightarrow> op_warned (heap (warn t w e s) ! w_busy_op w)"
  by (simp add: warn_def Let_def)

lemma wake_warnings_other:
  "u \<noteq> t \<Longrightarrow> warnings u (trace (get_db_lock_wake t w e s)) = warnings u (trace s)"
  by (rule wake_cases [where s = s and w = w and e = e])
     (simp_all add: wake_free wake_takeover wake_warn wake_wait wake_new_episode Let_def
        trace_notify_admin trace_takeover warn_warnings split: notifier.splits option.splits)

lemma exec_warnings_other:
  "actor x \<noteq> u \<Longrightarrow> warnings u (trace (exec s x)) = warnings u (trace s)"
proof (cases x)
  case (Get t mw wt e)
  then show ?thesis by (simp add: enter_warnings)
next
  case (Wake t e)
  assume "actor x \<noteq> u"
  then show ?thesis using Wake by (simp add: wake_warnings_other split: option.splits)
next
  case (Release t "is")
  then show ?thesis
    using release_db_lock_warnings [of u t "is" s]
    unfolding Release exec_release_final by (simp split: sum.splits)
qed

lemma wake_same_episode:
  assumes "same_op w s" "\<not> deadline_passed w e" "w_busy_op w < length (heap s)"
  shows "\<exists>w'. waiting (get_db_lock_wake t w e s) t = Some w' \<and> w_busy_op w' = w_busy_op w"
    and "warnings t (trace (get_db_lock_wake t w e s)) = warnings t (trace s)
       \<or> (warnings t (trace (get_db_lock_wake t w e s)) = warnings t (trace s) + 1
          \<and> \<not> op_warned (heap s ! w_busy_op w)
          \<and> op_warned (heap (get_db_lock_wake t w e s) ! w_busy_op w))"
proof -
  show "\<exists>w'. waiting (get_db_lock_wake t w e s) t = Some w' \<and> w_busy_op w' = w_busy_op w"
    using assms
    by (cases "t_warn e - w_check_start_time w > w_warning_timeout w")
       (simp_all add: wake_warn wake_wait)
  show "warnings t (trace (get_db_lock_wake t w e s)) = warnings t (trace s)
       \<or> (warnings t (trace (get_db_lock_wake t w e s)) = warnings t (trace s) + 1
          \<and> \<not> op_warned (heap s ! w_busy_op w)
          \<and> op_warned (heap (get_db_lock_wake t w e s) ! w_busy_op w))"
  proof (cases "t_warn e - w_check_start_time w > w_warning_timeout w")
    case True
    then show ?thesis
      using assms warn_sets_flag [of w "wait_returns t s" e t]
      by (simp add: wake_warn warn_warnings)
  next
    case False
    then show ?thesis using assms by (simp add: wake_wait)
  qed
qed


lemma exec_blocked:
  "waiting s t = Some w \<Longrightarrow> exec s (Get t mw wt e) = s"
  "waiting s t = Some w \<Longrightarrow> exec s (Release t is) = s"
  by simp_all

lemma episode_warnings:
  assumes "waiting s t = Some w" "w_busy_op w < length (heap s)" "same_episode t s rest"
  shows "warnings t (trace (foldl exec s rest))
           \<le> warnings t (trace s) + (if op_warned (heap s ! w_busy_op w) then 0 else 1)"
  using assms
proof (induction rest arbitrary: s w)
  case Nil
  then show ?case by simp
next
  case (Cons x rest)
  let ?r = "w_busy_op w"
  let ?s1 = "exec s x"
  have ep: "same_episode t ?s1 rest"
    using Cons.prems(3) by (cases x) simp_all
  have kept: "flags_kept s ?s1"
    using exec_flags [of s x] by simp
  then have len: "?r < length (heap ?s1)"
    and mono: "op_warned (heap s ! ?r) \<Longrightarrow> op_warned (heap ?s1 ! ?r)"
    using Cons.prems(2) by (auto simp: flags_kept_def)
  show ?case
  proof (cases "actor x = t")
    case False
    then have w1: "waiting ?s1 t = Some w"
      using exec_flags [of s x t] Cons.prems(1) by simp
    have "warnings t (trace ?s1) = warnings t (trace s)"
      using False by (simp add: exec_warnings_other)
    then show ?thesis
      using Cons.IH [OF w1 len ep] mono by (auto split: if_splits)
  next
    case True
    show ?thesis
    proof (cases x)
      case (Get t' mw wt e)
      then have "?s1 = s" using True Cons.prems(1) by simp
      then show ?thesis using Cons.IH [of s w] Cons.prems ep by simp
    next
      case (Release t' "is")
      then have "?s1 = s" using True Cons.prems(1) by simp
      then show ?thesis using Cons.IH [of s w] Cons.prems ep by simp
    next
      case (Wake t' e)
      then have x: "x = Wake t e" using True by simp
      have cond: "same_op w s" "\<not> deadline_passed w e"
        using Cons.prems(1,3) unfolding x by simp_all
      have s1: "?s1 = get_db_lock_wake t w e s"
        using Cons.prems(1) unfolding x by simp
      obtain w' where w': "waiting ?s1 t = Some w'" "w_busy_op w' = ?r"
        using wake_same_episode(1) [OF cond Cons.prems(2), of t] unfolding s1 by blast
      have ih: "warnings t (trace (foldl exec ?s1 rest))
           \<le> warnings t (trace ?s1) + (if op_warned (heap ?s1 ! ?r) then 0 else 1)"
        using Cons.IH [OF w'(1) _ ep] len w'(2) by simp
      show ?thesis
        using ih mono wake_same_episode(2) [OF cond Cons.prems(2), of t] unfolding s1 [symmetric]
        by (auto split: if_splits)
    qed
  qed
qed

text \<open>
  C8. While a blocked thread stays in one waiting episode (each time it wakes it finds the
  pair it observed, and the deadline not passed), it logs the timeout warning of line 112
  at most once, however many times it wakes and whatever the other threads do in between,
  and not at all when the flag of the list it observes is already set. The warning is
  logged exactly when the flag is not set and the two collaborators return, and logging it
  sets the flag.
\<close>

theorem warning_once_per_episode:
  "(waiting (run steps) t = Some w \<and> same_episode t (run steps) rest \<longrightarrow>
      warnings t (trace (foldl exec (run steps) rest))
        \<le> warnings t (trace (run steps))
            + (if op_warned (heap (run steps) ! w_busy_op w) then 0 else 1))
 \<and> warnings t (trace (warn t w e s))
      = warnings t (trace s)
        + (if \<not> op_warned (heap s ! w_busy_op w) \<and> frame_ok e \<and> format_ok e then 1 else 0)
 \<and> (w_busy_op w < length (heap s) \<and> warnings t (trace s) < warnings t (trace (warn t w e s))
      \<longrightarrow> op_warned (heap (warn t w e s) ! w_busy_op w))"
proof -
  have "warnings t (trace (foldl exec (run steps) rest))
        \<le> warnings t (trace (run steps))
            + (if op_warned (heap (run steps) ! w_busy_op w) then 0 else 1)"
    if "waiting (run steps) t = Some w" "same_episode t (run steps) rest"
  proof -
    have "w_busy_op w < length (heap (run steps))"
      using run_inv [of steps] that(1) by (simp add: frames_inv_def)
    then show ?thesis using episode_warnings that by blast
  qed
  moreover have "op_warned (heap (warn t w e s) ! w_busy_op w)"
    if "w_busy_op w < length (heap s)" "warnings t (trace s) < warnings t (trace (warn t w e s))"
    using that warn_sets_flag [of w s e t] by (simp add: warn_warnings split: if_splits)
  ultimately show ?thesis
    using warn_warnings [of t t w e s] by simp
qed

theorem warning_once_per_episode_witness:
  "waiting (run [Get 1 120 30 (quiet_env 0), Get 2 120 30 (quiet_env 0)]) 2
     = Some \<lparr>w_busy_op = 0, w_start_time = 0, w_check_start_time = 0, w_max_wait = 120,
             w_warning_timeout = 30\<rparr>
 \<and> same_episode 2 (run [Get 1 120 30 (quiet_env 0), Get 2 120 30 (quiet_env 0)])
      [Wake 2 (quiet_env 31), Get 1 120 30 (quiet_env 40), Wake 2 (quiet_env 62),
       Wake 2 (quiet_env 93)]
 \<and> warnings 2 (trace (foldl exec (run [Get 1 120 30 (quiet_env 0), Get 2 120 30 (quiet_env 0)])
      [Wake 2 (quiet_env 31), Get 1 120 30 (quiet_env 40), Wake 2 (quiet_env 62),
       Wake 2 (quiet_env 93)])) = 1
 \<and> op_warned (heap (warn 2 \<lparr>w_busy_op = 0, w_start_time = 0, w_check_start_time = 0,
        w_max_wait = 120, w_warning_timeout = 30\<rparr> (quiet_env 31)
        (run [Get 1 120 30 (quiet_env 0)])) ! 0)"
proof -
  let ?s = "run [Get 1 120 30 (quiet_env 0), Get 2 120 30 (quiet_env 0)]"
  let ?w = "\<lparr>w_busy_op = 0, w_start_time = 0, w_check_start_time = 0, w_max_wait = 120,
             w_warning_timeout = 30\<rparr>"
  let ?rest = "[Wake 2 (quiet_env 31), Get 1 120 30 (quiet_env 40), Wake 2 (quiet_env 62),
               Wake 2 (quiet_env 93)]"
  let ?s1 = "run [Get 1 120 30 (quiet_env 0)]"
  have w: "waiting ?s 2 = Some ?w"
    by (simp add: run_def model_defs init_def quiet_env_def)
  have ep: "same_episode 2 ?s ?rest"
    by (simp add: run_def model_defs init_def quiet_env_def same_op_def deadline_passed_def)
  have before: "warnings 2 (trace ?s) = 0" "\<not> op_warned (heap ?s ! 0)"
    by (simp_all add: run_def model_defs init_def quiet_env_def)
  have after: "1 \<le> warnings 2 (trace (foldl exec ?s ?rest))"
    by (simp add: run_def model_defs init_def quiet_env_def)
  have one: "0 < length (heap ?s1)" "warnings 2 (trace ?s1) = 0"
    "\<not> op_warned (heap ?s1 ! 0)" "frame_ok (quiet_env 31)" "format_ok (quiet_env 31)"
    by (simp_all add: run_def model_defs init_def quiet_env_def)
  have "warnings 2 (trace (foldl exec ?s ?rest))
          \<le> warnings 2 (trace ?s) + (if op_warned (heap ?s ! w_busy_op ?w) then 0 else 1)"
    using w ep
      warning_once_per_episode [of "[Get 1 120 30 (quiet_env 0), Get 2 120 30 (quiet_env 0)]"
         2 ?w ?rest]
    by blast
  then have "warnings 2 (trace (foldl exec ?s ?rest)) \<le> 1"
    unfolding before(1) using before(2) by simp
  then have once: "warnings 2 (trace (foldl exec ?s ?rest)) = 1"
    using after by (rule order.antisym)
  have "warnings 2 (trace ?s1) < warnings 2 (trace (warn 2 ?w (quiet_env 31) ?s1))"
    using one warning_once_per_episode [of _ 2 ?w _ "quiet_env 31" ?s1] by simp
  then have flag: "op_warned (heap (warn 2 ?w (quiet_env 31) ?s1) ! 0)"
    using one(1) warning_once_per_episode [of _ 2 ?w _ "quiet_env 31" ?s1] by simp
  show ?thesis
    using w ep once flag by blast
qed

end
